theory Spec2Isabelle
  imports Main
begin

section \<open>Characters and numbers of the program\<close>

text \<open>
  Pieces, the empty cell and the two sides are single-character strings in the source
  (\<open>P,N,B,R,Q,K\<close> uppercase = white, lowercase = black, \<open>.\<close> = empty, \<open>w\<close>/\<open>b\<close> the
  sides).  They are modelled as \<^typ>\<open>char\<close>.  \<open>toUpperCase\<close> and \<open>toLowerCase\<close> are the
  ASCII case mappings; every character the program ever stores or compares is ASCII.
\<close>

definition lowerLetters :: "char list" where
  "lowerLetters = ''abcdefghijklmnopqrstuvwxyz''"

definition upperLetters :: "char list" where
  "upperLetters = ''ABCDEFGHIJKLMNOPQRSTUVWXYZ''"

definition toUpperCase :: "char \<Rightarrow> char" where
  "toUpperCase ch = (case map_of (zip lowerLetters upperLetters) ch of Some u \<Rightarrow> u | None \<Rightarrow> ch)"

definition toLowerCase :: "char \<Rightarrow> char" where
  "toLowerCase ch = (case map_of (zip upperLetters lowerLetters) ch of Some l \<Rightarrow> l | None \<Rightarrow> ch)"

text \<open>JavaScript numbers as the search uses them: integers and the two infinities.\<close>

datatype jsnum = NegInf | Fin int | PosInf

instantiation jsnum :: linorder
begin

fun less_eq_jsnum :: "jsnum \<Rightarrow> jsnum \<Rightarrow> bool" where
  "less_eq_jsnum NegInf _ = True"
| "less_eq_jsnum _ PosInf = True"
| "less_eq_jsnum (Fin a) (Fin b) = (a \<le> b)"
| "less_eq_jsnum _ _ = False"

definition less_jsnum :: "jsnum \<Rightarrow> jsnum \<Rightarrow> bool" where
  "less_jsnum x y \<longleftrightarrow> x \<le> y \<and> \<not> y \<le> x"

instance
proof
  fix x y z :: jsnum
  show "(x < y) = (x \<le> y \<and> \<not> y \<le> x)" by (simp add: less_jsnum_def)
  show "x \<le> x" by (cases x) simp_all
  show "x \<le> y \<Longrightarrow> y \<le> z \<Longrightarrow> x \<le> z" by (cases x; cases y; cases z) simp_all
  show "x \<le> y \<Longrightarrow> y \<le> x \<Longrightarrow> x = y" by (cases x; cases y) simp_all
  show "x \<le> y \<or> y \<le> x" by (cases x; cases y) auto
qed

end

section \<open>The board\<close>

type_synonym board = "char list list"

definition initialBoard :: board where
  "initialBoard =
    [''rnbqkbnr'',
     ''pppppppp'',
     ''........'',
     ''........'',
     ''........'',
     ''........'',
     ''PPPPPPPP'',
     ''RNBQKBNR'']"

text \<open>An 8 by 8 grid: eight rows of eight cells.\<close>

definition wf_board :: "board \<Rightarrow> bool" where
  "wf_board b \<longleftrightarrow> length b = 8 \<and> (\<forall>row \<in> set b. length row = 8)"

text \<open>
  \<open>boardState[r][c]\<close> at a square inside the grid.  The generator, the evaluator and the
  search read only squares whose two indices are loop indices below 8 or have passed
  \<open>inRange\<close>.
\<close>

definition sq :: "board \<Rightarrow> int \<Rightarrow> int \<Rightarrow> char" where
  "sq b r c = b ! nat r ! nat c"

definition inRange :: "int \<Rightarrow> bool" where
  "inRange x \<longleftrightarrow> x \<ge> 0 \<and> x < 8"

text \<open>The loop indices \<open>0..7\<close>, and the squares in the row-major order of the two nested loops.\<close>

definition idx8 :: "int list" where
  "idx8 = [0, 1, 2, 3, 4, 5, 6, 7]"

definition squares :: "(int \<times> int) list" where
  "squares = concat (map (\<lambda>r. map (\<lambda>c. (r, c)) idx8) idx8)"

section \<open>The evaluator\<close>

text \<open>The object \<open>values\<close> of \<open>evaluateBoardSimple\<close>.\<close>

definition pieceValues :: "char \<Rightarrow> int option" where
  "pieceValues = map_of
     [(CHR ''p'', 100), (CHR ''n'', 320), (CHR ''b'', 330),
      (CHR ''r'', 500), (CHR ''q'', 900), (CHR ''k'', 20000)]"

text \<open>What one iteration of the loop body adds to \<open>score\<close> for the cell value \<open>p\<close>.\<close>

definition cellScore :: "char \<Rightarrow> int" where
  "cellScore p =
     (if p = CHR ''.'' then 0
      else let v = (case pieceValues (toLowerCase p) of Some x \<Rightarrow> x | None \<Rightarrow> 0)
           in if p = toLowerCase p then - v else v)"

definition evaluateBoardSimple :: "board \<Rightarrow> int" where
  "evaluateBoardSimple boardState =
     foldl (\<lambda>score (r, c). score + cellScore (sq boardState r c)) 0 squares"

text \<open>
  The material score in the specification's words: each piece has a colour and a type, a
  type has a value, white counts positive and black negative, and the score is the sum over
  the occupied cells.
\<close>

datatype color = White | Black

datatype ptype = Pawn | Knight | Bishop | Rook | Queen | King

definition pieceOf :: "char \<Rightarrow> (color \<times> ptype) option" where
  "pieceOf = map_of
     [(CHR ''P'', (White, Pawn)), (CHR ''N'', (White, Knight)), (CHR ''B'', (White, Bishop)),
      (CHR ''R'', (White, Rook)), (CHR ''Q'', (White, Queen)), (CHR ''K'', (White, King)),
      (CHR ''p'', (Black, Pawn)), (CHR ''n'', (Black, Knight)), (CHR ''b'', (Black, Bishop)),
      (CHR ''r'', (Black, Rook)), (CHR ''q'', (Black, Queen)), (CHR ''k'', (Black, King))]"

fun typeValue :: "ptype \<Rightarrow> int" where
  "typeValue Pawn = 100"
| "typeValue Knight = 320"
| "typeValue Bishop = 330"
| "typeValue Rook = 500"
| "typeValue Queen = 900"
| "typeValue King = 20000"

definition materialValue :: "char \<Rightarrow> int" where
  "materialValue p =
     (case pieceOf p of
        None \<Rightarrow> 0
      | Some (White, t) \<Rightarrow> typeValue t
      | Some (Black, t) \<Rightarrow> - typeValue t)"

definition materialSum :: "board \<Rightarrow> int" where
  "materialSum b = sum_list (map materialValue (filter (\<lambda>p. p \<noteq> CHR ''.'') (concat b)))"

section \<open>The game state and the validating executor\<close>

text \<open>
  The module-level variables \<open>board\<close>, \<open>moves\<close>, \<open>moveList\<close> and \<open>sideToMove\<close>.  An entry
  of \<open>moves\<close> is the object pushed by \<open>makeMoveIfLegal\<close>.  \<open>push\<close> appends at the end of a
  list and \<open>pop\<close> removes the last element.
\<close>

datatype move = Move (from_sq: "int \<times> int") (to_sq: "int \<times> int")

record played =
  p_from :: "int \<times> int"
  p_to :: "int \<times> int"
  p_piece :: char
  p_captured :: char
  p_notation :: string

record game =
  board :: board
  moves :: "played list"
  moveList :: "string list"
  sideToMove :: char

definition initialGame :: game where
  "initialGame = \<lparr>board = initialBoard, moves = [], moveList = [], sideToMove = CHR ''w''\<rparr>"

text \<open>
  Reading \<open>board[r][c]\<close> with arbitrary integer indices: when \<open>board[r]\<close> does not exist
  the property access on \<open>undefined\<close> throws a \<open>TypeError\<close>; when the row exists and the
  column does not, the value is \<open>undefined\<close> (\<open>None\<close>).
\<close>

datatype error = TypeError

definition getCell :: "board \<Rightarrow> int \<Rightarrow> int \<Rightarrow> error + char option" where
  "getCell b r c =
     (if 0 \<le> r \<and> nat r < length b
      then (let row = b ! nat r
            in if 0 \<le> c \<and> nat c < length row then Inr (Some (row ! nat c)) else Inr None)
      else Inl TypeError)"

text \<open>The assignment \<open>board[r][c] = v\<close> at a square of the grid.\<close>

definition setCell :: "board \<Rightarrow> int \<Rightarrow> int \<Rightarrow> char \<Rightarrow> board" where
  "setCell b r c v = b[nat r := (b ! nat r)[nat c := v]]"

text \<open>
  \<open>isPieceOwnedBySide\<close>; with \<open>undefined\<close> for the piece, the call \<open>piece.toUpperCase()\<close>
  (or \<open>toLowerCase\<close>) throws.
\<close>

definition isPieceOwnedBySide :: "char option \<Rightarrow> char \<Rightarrow> error + bool" where
  "isPieceOwnedBySide piece side =
     (case piece of
        None \<Rightarrow> Inl TypeError
      | Some p \<Rightarrow>
          if p = CHR ''.'' then Inr False
          else Inr (if side = CHR ''w'' then p = toUpperCase p else p = toLowerCase p))"

text \<open>
  The \<open>while\<close> loop of \<open>isPathClear\<close>.  It need not end for every value of its variables
  (with \<open>dr = dc = 0\<close> away from the target it would spin), so the result is an option
  and \<open>None\<close> stands for not returning.
\<close>

partial_function (option) pathLoop ::
  "board \<Rightarrow> int \<Rightarrow> int \<Rightarrow> int \<Rightarrow> int \<Rightarrow> int \<Rightarrow> int \<Rightarrow> (error + bool) option" where
  "pathLoop b dr dc tr tc r c =
     (if r \<noteq> tr \<or> c \<noteq> tc
      then (case getCell b r c of
              Inl e \<Rightarrow> Some (Inl e)
            | Inr v \<Rightarrow>
                if v \<noteq> Some (CHR ''.'') then Some (Inr False)
                else pathLoop b dr dc tr tc (r + dr) (c + dc))
      else Some (Inr True))"

declare pathLoop.simps [code]

definition isPathClear :: "board \<Rightarrow> int \<Rightarrow> int \<Rightarrow> int \<Rightarrow> int \<Rightarrow> (error + bool) option" where
  "isPathClear b fr fc tr tc =
     (let dr = sgn (tr - fr); dc = sgn (tc - fc)
      in pathLoop b dr dc tr tc (fr + dr) (fc + dc))"

text \<open>
  \<open>notationForMove\<close>.  \<open>files[fc]\<close> is a one-character string or \<open>undefined\<close>; \<open>+\<close> on
  a string and \<open>undefined\<close> concatenates the text \<open>undefined\<close>, and on two \<open>undefined\<close>
  gives \<open>NaN\<close>.
\<close>

definition charAt :: "string \<Rightarrow> int \<Rightarrow> string option" where
  "charAt s i = (if 0 \<le> i \<and> nat i < length s then Some [s ! nat i] else None)"

definition jsPlus :: "string option \<Rightarrow> string option \<Rightarrow> string" where
  "jsPlus x y =
     (case (x, y) of
        (Some a, Some b) \<Rightarrow> a @ b
      | (Some a, None) \<Rightarrow> a @ ''undefined''
      | (None, Some b) \<Rightarrow> ''undefined'' @ b
      | (None, None) \<Rightarrow> ''NaN'')"

definition notationForMove :: "int \<Rightarrow> int \<Rightarrow> int \<Rightarrow> int \<Rightarrow> char \<Rightarrow> char \<Rightarrow> string" where
  "notationForMove fr fc tr tc piece target =
     (let files = ''abcdefgh''; ranks = ''87654321'';
          from = jsPlus (charAt files fc) (charAt ranks fr);
          to = jsPlus (charAt files tc) (charAt ranks tr)
      in [piece] @ from @ ''-'' @ to @ (if target \<noteq> CHR ''.'' then ''x'' else []))"

text \<open>
  The piece-type checks of \<open>makeMoveIfLegal\<close> (from \<open>const t = piece.toLowerCase()\<close> to the
  comment \<open>make move\<close>): \<open>Inr False\<close> where the source returns \<open>false\<close>, \<open>Inr True\<close> where
  control reaches \<open>make move\<close>.
\<close>

definition shapeCheck ::
  "board \<Rightarrow> char \<Rightarrow> char \<Rightarrow> int \<Rightarrow> int \<Rightarrow> int \<Rightarrow> int \<Rightarrow> (error + bool) option" where
  "shapeCheck b piece target fr fc tr tc =
     (let t = toLowerCase piece in
      if t = CHR ''p'' then
        (let forward = (if piece = CHR ''P'' then - 1 else 1) in
         if fc = tc \<and> target = CHR ''.'' then
           (if tr = fr + forward then Some (Inr True)
            else if (fr = 6 \<and> piece = CHR ''P'' \<and> tr = 4) \<or> (fr = 1 \<and> piece = CHR ''p'' \<and> tr = 3)
            then Some (Inr True)
            else Some (Inr False))
         else if \<bar>tc - fc\<bar> = 1 \<and> tr = fr + forward \<and> target \<noteq> CHR ''.'' then Some (Inr True)
         else Some (Inr False))
      else if t = CHR ''n'' then
        (if \<not> ((\<bar>tr - fr\<bar> = 1 \<and> \<bar>tc - fc\<bar> = 2) \<or> (\<bar>tr - fr\<bar> = 2 \<and> \<bar>tc - fc\<bar> = 1))
         then Some (Inr False) else Some (Inr True))
      else if t = CHR ''b'' then
        (if \<bar>tr - fr\<bar> \<noteq> \<bar>tc - fc\<bar> then Some (Inr False) else isPathClear b fr fc tr tc)
      else if t = CHR ''r'' then
        (if tr \<noteq> fr \<and> tc \<noteq> fc then Some (Inr False) else isPathClear b fr fc tr tc)
      else if t = CHR ''q'' then
        (if tr \<noteq> fr \<and> tc \<noteq> fc \<and> \<bar>tr - fr\<bar> \<noteq> \<bar>tc - fc\<bar> then Some (Inr False)
         else isPathClear b fr fc tr tc)
      else if t = CHR ''k'' then
        (if max \<bar>tr - fr\<bar> \<bar>tc - fc\<bar> > 1 then Some (Inr False) else Some (Inr True))
      else Some (Inr True))"

text \<open>
  The statements after the comment \<open>make move\<close>.  The calls \<open>updateMovesUI()\<close> and
  \<open>playSound('move')\<close> touch only the page and the audio.
\<close>

definition commitMove :: "game \<Rightarrow> int \<Rightarrow> int \<Rightarrow> int \<Rightarrow> int \<Rightarrow> char \<Rightarrow> char \<Rightarrow> game" where
  "commitMove s fr fc tr tc piece target =
     (let moveNotation = notationForMove fr fc tr tc piece target;
          b1 = setCell (board s) tr tc (sq (board s) fr fc);
          b2 = setCell b1 fr fc (CHR ''.'')
      in \<lparr>board = b2,
          moves = moves s @
            [\<lparr>p_from = (fr, fc), p_to = (tr, tc), p_piece = piece, p_captured = target,
              p_notation = moveNotation\<rparr>],
          moveList = moveList s @ [moveNotation],
          sideToMove = (if sideToMove s = CHR ''w'' then CHR ''b'' else CHR ''w'')\<rparr>)"

text \<open>
  \<open>makeMoveIfLegal\<close> on the game state: \<open>Some (Inr (result, state))\<close> when it returns,
  \<open>Some (Inl TypeError)\<close> when it throws (the state is then as before the call, nothing
  having been assigned yet), \<open>None\<close> when it does not return.  An \<open>undefined\<close> target makes
  \<open>target.toUpperCase()\<close> throw.
\<close>

definition makeMoveIfLegal :: "game \<Rightarrow> move \<Rightarrow> (error + bool \<times> game) option" where
  "makeMoveIfLegal s mv =
     (let (fr, fc) = from_sq mv; (tr, tc) = to_sq mv in
      case getCell (board s) fr fc of
        Inl e \<Rightarrow> Some (Inl e)
      | Inr piece \<Rightarrow>
          if piece = Some (CHR ''.'') then Some (Inr (False, s))
          else (case isPieceOwnedBySide piece (sideToMove s) of
            Inl e \<Rightarrow> Some (Inl e)
          | Inr owned \<Rightarrow>
              if \<not> owned then Some (Inr (False, s))
              else if fr = tr \<and> fc = tc then Some (Inr (False, s))
              else (case getCell (board s) tr tc of
                Inl e \<Rightarrow> Some (Inl e)
              | Inr None \<Rightarrow> Some (Inl TypeError)
              | Inr (Some target) \<Rightarrow>
                  (case piece of
                     None \<Rightarrow> Some (Inl TypeError)
                   | Some p \<Rightarrow>
                  if target \<noteq> CHR ''.'' \<and> ((target = toUpperCase target) = (p = toUpperCase p))
                  then Some (Inr (False, s))
                  else (case shapeCheck (board s) p target fr fc tr tc of
                    None \<Rightarrow> None
                  | Some (Inl e) \<Rightarrow> Some (Inl e)
                  | Some (Inr False) \<Rightarrow> Some (Inr (False, s))
                  | Some (Inr True) \<Rightarrow> Some (Inr (True, commitMove s fr fc tr tc p target)))))))"

text \<open>
  The click handler of \<open>undoBtn\<close>.  It is an arrow function with a bare \<open>return\<close> on the
  empty history and no \<open>return\<close> at its end: its value is \<open>undefined\<close> on both paths.
\<close>

datatype jsvalue = JSUndefined | JSBool bool

definition undoBtn_click :: "game \<Rightarrow> jsvalue \<times> game" where
  "undoBtn_click s =
     (if moves s = [] then (JSUndefined, s)
      else
        let l = last (moves s);
            b1 = setCell (board s) (fst (p_from l)) (snd (p_from l)) (p_piece l);
            b2 = setCell b1 (fst (p_to l)) (snd (p_to l)) (p_captured l)
        in (JSUndefined,
            \<lparr>board = b2,
             moves = butlast (moves s),
             moveList = butlast (moveList s),
             sideToMove = (if sideToMove s = CHR ''w'' then CHR ''b'' else CHR ''w'')\<rparr>))"

section \<open>The move generator\<close>

text \<open>
  \<open>pieceColor\<close> and \<open>isOpposite\<close> take strings; the generator calls
  \<open>isOpposite(pieceColor(p), t2)\<close>, so that \<open>isOpposite\<close> applies \<open>pieceColor\<close> to the side
  letter \<open>w\<close> or \<open>b\<close> that \<open>pieceColor(p)\<close> returned.
\<close>

definition pieceColor :: "char \<Rightarrow> char" where
  "pieceColor p = (if p = toUpperCase p then CHR ''w'' else CHR ''b'')"

definition isOpposite :: "char \<Rightarrow> char \<Rightarrow> bool" where
  "isOpposite a b \<longleftrightarrow> pieceColor a \<noteq> pieceColor b"

text \<open>The pawn branch: single step, the two captures, double step, pushed in this order.\<close>

definition pawnMoves :: "board \<Rightarrow> char \<Rightarrow> int \<Rightarrow> int \<Rightarrow> move list" where
  "pawnMoves b p r c =
     (let isWhite = (p = toUpperCase p);
          dir = (if isWhite then - 1 else 1);
          nr = r + dir
      in (if inRange nr \<and> sq b nr c = CHR ''.'' then [Move (r, c) (nr, c)] else [])
         @ concat (map (\<lambda>dc. let nc = c + dc in
                          if inRange nr \<and> inRange nc \<and> sq b nr nc \<noteq> CHR ''.''
                             \<and> isOpposite (pieceColor p) (sq b nr nc)
                          then [Move (r, c) (nr, nc)] else [])
                     [- 1, 1])
         @ (if (r = 6 \<and> isWhite) \<or> (r = 1 \<and> \<not> isWhite)
            then (let rr = r + dir * 2 in
                  if sq b (r + dir) c = CHR ''.'' \<and> sq b rr c = CHR ''.''
                  then [Move (r, c) (rr, c)] else [])
            else []))"

definition knightDeltas :: "(int \<times> int) list" where
  "knightDeltas = [(1, 2), (2, 1), (- 1, 2), (- 2, 1), (1, - 2), (2, - 1), (- 1, - 2), (- 2, - 1)]"

definition knightMoves :: "board \<Rightarrow> char \<Rightarrow> int \<Rightarrow> int \<Rightarrow> move list" where
  "knightMoves b p r c =
     concat (map (\<lambda>d. let rr = r + fst d; cc = c + snd d in
                    if \<not> inRange rr \<or> \<not> inRange cc then []
                    else let t2 = sq b rr cc in
                         if t2 = CHR ''.'' \<or> isOpposite (pieceColor p) t2
                         then [Move (r, c) (rr, cc)] else [])
               knightDeltas)"

text \<open>
  The \<open>while\<close> loop of the sliding pieces along one delta \<open>d\<close>, from the square
  \<open>(rr, cc)\<close> on.  The deltas of the source are literal pairs, none of them \<open>(0, 0)\<close>;
  the first branch, which no call of the generator takes, makes the function total.
\<close>

function ray :: "board \<Rightarrow> char \<Rightarrow> int \<times> int \<Rightarrow> int \<times> int \<Rightarrow> int \<Rightarrow> int \<Rightarrow> move list" where
  "ray b p orig d rr cc =
     (if d = (0, 0) then []
      else if inRange rr \<and> inRange cc then
        (let t2 = sq b rr cc in
         if t2 = CHR ''.'' then Move orig (rr, cc) # ray b p orig d (rr + fst d) (cc + snd d)
         else (if isOpposite (pieceColor p) t2 then [Move orig (rr, cc)] else []))
      else [])"
  by pat_completeness auto
termination
  by (relation "measure (\<lambda>(b, p, orig, d, rr, cc).
        if fst d > 0 then nat (8 - rr) else if fst d < 0 then nat (rr + 1)
        else if snd d > 0 then nat (8 - cc) else nat (cc + 1))")
     (auto simp: inRange_def)

definition bishopDeltas :: "(int \<times> int) list" where
  "bishopDeltas = [(1, 1), (1, - 1), (- 1, 1), (- 1, - 1)]"

definition rookDeltas :: "(int \<times> int) list" where
  "rookDeltas = [(1, 0), (- 1, 0), (0, 1), (0, - 1)]"

definition queenDeltas :: "(int \<times> int) list" where
  "queenDeltas = [(1, 1), (1, - 1), (- 1, 1), (- 1, - 1), (1, 0), (- 1, 0), (0, 1), (0, - 1)]"

definition slideMoves :: "board \<Rightarrow> char \<Rightarrow> char \<Rightarrow> int \<Rightarrow> int \<Rightarrow> move list" where
  "slideMoves b p t r c =
     (let deltas = (if t = CHR ''b'' then bishopDeltas
                    else if t = CHR ''r'' then rookDeltas else queenDeltas)
      in concat (map (\<lambda>d. ray b p (r, c) d (r + fst d) (c + snd d)) deltas))"

definition kingMoves :: "board \<Rightarrow> char \<Rightarrow> int \<Rightarrow> int \<Rightarrow> move list" where
  "kingMoves b p r c =
     concat (map (\<lambda>dr. concat (map (\<lambda>dc.
          if dr = 0 \<and> dc = 0 then []
          else let rr = r + dr; cc = c + dc in
               if \<not> inRange rr \<or> \<not> inRange cc then []
               else let t2 = sq b rr cc in
                    if t2 = CHR ''.'' \<or> isOpposite (pieceColor p) t2
                    then [Move (r, c) (rr, cc)] else [])
        [- 1, 0, 1])) [- 1, 0, 1])"

text \<open>The body of the two nested loops of \<open>generateMovesForSide\<close> at the square \<open>(r, c)\<close>.\<close>

definition movesFrom :: "board \<Rightarrow> char \<Rightarrow> int \<Rightarrow> int \<Rightarrow> move list" where
  "movesFrom b side r c =
     (let p = sq b r c in
      if p = CHR ''.'' then []
      else let isWhite = (p = toUpperCase p) in
        if (side = CHR ''w'') \<noteq> isWhite then []
        else let t = toLowerCase p in
          if t = CHR ''p'' then pawnMoves b p r c
          else if t = CHR ''n'' then knightMoves b p r c
          else if t = CHR ''b'' \<or> t = CHR ''r'' \<or> t = CHR ''q'' then slideMoves b p t r c
          else if t = CHR ''k'' then kingMoves b p r c
          else [])"

definition generateMovesForSide :: "board \<Rightarrow> char \<Rightarrow> move list" where
  "generateMovesForSide boardState side =
     concat (map (\<lambda>(r, c). movesFrom boardState side r c) squares)"

section \<open>The search\<close>

definition cloneBoard :: "board \<Rightarrow> board" where
  "cloneBoard b = map (\<lambda>r. r) b"

definition makeMoveOnBoard :: "board \<Rightarrow> move \<Rightarrow> board" where
  "makeMoveOnBoard b mv =
     (let nb = cloneBoard b;
          (fr, fc) = from_sq mv;
          (tr, tc) = to_sq mv;
          nb1 = setCell nb tr tc (sq nb fr fc)
      in setCell nb1 fr fc (CHR ''.''))"

text \<open>
  \<open>Array.prototype.sort\<close> with a comparator: the sort is stable, an element \<open>x\<close> staying
  before \<open>y\<close> unless the comparator is positive on \<open>(x, y)\<close>.
\<close>

fun insertBy :: "('a \<Rightarrow> 'a \<Rightarrow> int) \<Rightarrow> 'a \<Rightarrow> 'a list \<Rightarrow> 'a list" where
  "insertBy cmp x [] = [x]"
| "insertBy cmp x (y # ys) = (if cmp x y \<le> 0 then x # y # ys else y # insertBy cmp x ys)"

definition arraySort :: "('a \<Rightarrow> 'a \<Rightarrow> int) \<Rightarrow> 'a list \<Rightarrow> 'a list" where
  "arraySort cmp xs = foldr (insertBy cmp) xs []"

text \<open>The comparator of \<open>minimaxRoot\<close>; a boolean in a subtraction is 0 or 1.\<close>

definition captureCmp :: "board \<Rightarrow> move \<Rightarrow> move \<Rightarrow> int" where
  "captureCmp boardState a b =
     (let ta = sq boardState (fst (to_sq a)) (snd (to_sq a));
          tb = sq boardState (fst (to_sq b)) (snd (to_sq b))
      in of_bool (tb \<noteq> CHR ''.'') - of_bool (ta \<noteq> CHR ''.''))"

text \<open>
  The clock.  \<open>performance.now()\<close> is modelled by a sequence of readings \<open>clk\<close> and a
  counter of the readings made so far, which every function that reads the clock returns
  advanced.  \<open>timeUp\<close> is the test \<open>performance.now() - startTime > timeLimitMs\<close> on the
  reading number \<open>n\<close>.
\<close>

type_synonym clock = "nat \<Rightarrow> int"

definition timeUp :: "clock \<Rightarrow> int \<Rightarrow> int \<Rightarrow> nat \<Rightarrow> bool" where
  "timeUp clk startTime timeLimitMs n \<longleftrightarrow> clk n - startTime > timeLimitMs"

text \<open>
  The array \<open>moves\<close> of \<open>minimaxRoot\<close> after its \<open>sort\<close>, and the array \<open>moves\<close> of
  \<open>minimax\<close>, which is iterated as the generator returned it.
\<close>

definition rootMoves :: "board \<Rightarrow> char \<Rightarrow> move list" where
  "rootMoves boardState side =
     arraySort (captureCmp boardState) (generateMovesForSide boardState side)"

definition nodeMoves :: "board \<Rightarrow> char \<Rightarrow> move list" where
  "nodeMoves boardState side = generateMovesForSide boardState side"

text \<open>
  The two \<open>for\<close> loops of \<open>minimax\<close> over the remaining moves.  \<open>child nb alpha beta n\<close>
  is the recursive call on the position \<open>nb\<close>.  The test \<open>beta <= alpha\<close> comes before the
  clock is read.
\<close>

fun maxLoop ::
  "clock \<Rightarrow> int \<Rightarrow> int \<Rightarrow> (board \<Rightarrow> jsnum \<Rightarrow> jsnum \<Rightarrow> nat \<Rightarrow> jsnum \<times> nat) \<Rightarrow> board \<Rightarrow> move list
     \<Rightarrow> jsnum \<Rightarrow> jsnum \<Rightarrow> jsnum \<Rightarrow> nat \<Rightarrow> jsnum \<times> nat" where
  "maxLoop clk startTime timeLimitMs child boardState [] maxEval alpha beta n = (maxEval, n)"
| "maxLoop clk startTime timeLimitMs child boardState (mv # mvs) maxEval alpha beta n =
     (let nb = makeMoveOnBoard boardState mv;
          (ev, n1) = child nb alpha beta n;
          maxEval' = max maxEval ev;
          alpha' = max alpha ev
      in if beta \<le> alpha' then (maxEval', n1)
         else if timeUp clk startTime timeLimitMs n1 then (maxEval', Suc n1)
         else maxLoop clk startTime timeLimitMs child boardState mvs maxEval' alpha' beta (Suc n1))"

fun minLoop ::
  "clock \<Rightarrow> int \<Rightarrow> int \<Rightarrow> (board \<Rightarrow> jsnum \<Rightarrow> jsnum \<Rightarrow> nat \<Rightarrow> jsnum \<times> nat) \<Rightarrow> board \<Rightarrow> move list
     \<Rightarrow> jsnum \<Rightarrow> jsnum \<Rightarrow> jsnum \<Rightarrow> nat \<Rightarrow> jsnum \<times> nat" where
  "minLoop clk startTime timeLimitMs child boardState [] minEval alpha beta n = (minEval, n)"
| "minLoop clk startTime timeLimitMs child boardState (mv # mvs) minEval alpha beta n =
     (let nb = makeMoveOnBoard boardState mv;
          (ev, n1) = child nb alpha beta n;
          minEval' = min minEval ev;
          beta' = min beta ev
      in if beta' \<le> alpha then (minEval', n1)
         else if timeUp clk startTime timeLimitMs n1 then (minEval', Suc n1)
         else minLoop clk startTime timeLimitMs child boardState mvs minEval' alpha beta' (Suc n1))"

text \<open>
  \<open>minimax\<close>, by recursion on \<open>depth\<close>: the time cutoff is tested first, then
  \<open>depth === 0\<close>, then the empty move list.  The result is the score and the advanced
  counter of clock readings.
\<close>

fun minimax ::
  "clock \<Rightarrow> board \<Rightarrow> nat \<Rightarrow> char \<Rightarrow> jsnum \<Rightarrow> jsnum \<Rightarrow> int \<Rightarrow> int \<Rightarrow> nat \<Rightarrow> jsnum \<times> nat" where
  "minimax clk boardState 0 side alpha beta startTime timeLimitMs n =
     (if timeUp clk startTime timeLimitMs n then (Fin (evaluateBoardSimple boardState), Suc n)
      else (Fin (evaluateBoardSimple boardState), Suc n))"
| "minimax clk boardState (Suc d) side alpha beta startTime timeLimitMs n =
     (if timeUp clk startTime timeLimitMs n then (Fin (evaluateBoardSimple boardState), Suc n)
      else
        let moves = nodeMoves boardState side in
        if moves = [] then (Fin (evaluateBoardSimple boardState), Suc n)
        else if side = CHR ''w'' then
          maxLoop clk startTime timeLimitMs
            (\<lambda>nb a b k. minimax clk nb d (CHR ''b'') a b startTime timeLimitMs k)
            boardState moves NegInf alpha beta (Suc n)
        else
          minLoop clk startTime timeLimitMs
            (\<lambda>nb a b k. minimax clk nb d (CHR ''w'') a b startTime timeLimitMs k)
            boardState moves PosInf alpha beta (Suc n))"

text \<open>
  The \<open>for\<close> loop of \<open>minimaxRoot\<close>, with \<open>bestMove\<close> (\<open>None\<close> for \<open>null\<close>) and
  \<open>bestScore\<close> as accumulators.  \<open>d\<close> is \<open>depth - 1\<close>.
\<close>

fun rootLoop ::
  "clock \<Rightarrow> int \<Rightarrow> int \<Rightarrow> board \<Rightarrow> nat \<Rightarrow> char \<Rightarrow> move list \<Rightarrow> move option \<Rightarrow> jsnum \<Rightarrow> nat
     \<Rightarrow> move option \<times> jsnum \<times> nat" where
  "rootLoop clk start timeLimitMs boardState d side [] bestMove bestScore n =
     (bestMove, bestScore, n)"
| "rootLoop clk start timeLimitMs boardState d side (mv # mvs) bestMove bestScore n =
     (let nb = makeMoveOnBoard boardState mv;
          (score, n1) = minimax clk nb d (if side = CHR ''w'' then CHR ''b'' else CHR ''w'')
                           NegInf PosInf start timeLimitMs n;
          (bestScore', bestMove') =
             (if side = CHR ''w''
              then (if score > bestScore then (score, Some mv) else (bestScore, bestMove))
              else (if score < bestScore then (score, Some mv) else (bestScore, bestMove)))
      in if timeUp clk start timeLimitMs n1 then (bestMove', bestScore', Suc n1)
         else rootLoop clk start timeLimitMs boardState d side mvs bestMove' bestScore' (Suc n1))"

text \<open>
  \<open>minimaxRoot\<close> for a depth of at least one, as every difficulty level has it; with depth
  zero the source would call \<open>minimax\<close> with depth \<open>-1\<close>, which never meets \<open>depth === 0\<close>,
  and that call is outside this model.  \<open>minimaxRootSearch\<close> also gives the final
  \<open>bestScore\<close> and the number of clock readings; \<open>minimaxRoot\<close> is the returned
  \<open>bestMove\<close>.
\<close>

fun minimaxRootSearch ::
  "clock \<Rightarrow> board \<Rightarrow> nat \<Rightarrow> char \<Rightarrow> int \<Rightarrow> nat \<Rightarrow> move option \<times> jsnum \<times> nat" where
  "minimaxRootSearch clk boardState (Suc d) side timeLimitMs n =
     (let start = clk n;
          bestScore = (if side = CHR ''w'' then NegInf else PosInf)
      in rootLoop clk start timeLimitMs boardState d side (rootMoves boardState side)
           None bestScore (Suc n))"

definition minimaxRoot :: "clock \<Rightarrow> board \<Rightarrow> nat \<Rightarrow> char \<Rightarrow> int \<Rightarrow> nat \<Rightarrow> move option" where
  "minimaxRoot clk boardState depth side timeLimitMs n =
     fst (minimaxRootSearch clk boardState depth side timeLimitMs n)"

section \<open>Vocabulary of the properties\<close>

text \<open>
  A cell value \<open>p\<close> is a piece of \<open>side\<close>: what \<open>isPieceOwnedBySide\<close> returns on a defined
  cell value.
\<close>

definition ownedBy :: "char \<Rightarrow> char \<Rightarrow> bool" where
  "ownedBy side p \<longleftrightarrow>
     p \<noteq> CHR ''.'' \<and> (if side = CHR ''w'' then p = toUpperCase p else p = toLowerCase p)"

text \<open>The state after a call of \<open>makeMoveIfLegal\<close> (unchanged when the call throws).\<close>

definition play :: "game \<Rightarrow> move \<Rightarrow> game" where
  "play s mv = (case makeMoveIfLegal s mv of Some (Inr (ok, s')) \<Rightarrow> s' | _ \<Rightarrow> s)"

text \<open>The call returned \<open>true\<close>.\<close>

definition accepted :: "game \<Rightarrow> move \<Rightarrow> bool" where
  "accepted s mv = (case makeMoveIfLegal s mv of Some (Inr (ok, s')) \<Rightarrow> ok | _ \<Rightarrow> False)"

text \<open>
  A move is a capture on a board when its destination is occupied (the test of the
  comparator in \<open>minimaxRoot\<close>); a list of moves is captures-first when it is its captures
  followed by its other moves.
\<close>

definition isCapture :: "board \<Rightarrow> move \<Rightarrow> bool" where
  "isCapture b mv \<longleftrightarrow> sq b (fst (to_sq mv)) (snd (to_sq mv)) \<noteq> CHR ''.''"

definition capturesFirst :: "board \<Rightarrow> move list \<Rightarrow> bool" where
  "capturesFirst b ms \<longleftrightarrow> ms = filter (isCapture b) ms @ filter (\<lambda>m. \<not> isCapture b m) ms"

text \<open>
  Positions of play: after 1. e2-e4 e7-e5; after 1. Nb1-c3 a7-a6; after 1. e2-e4 d7-d5
  2. Nb1-c3.
\<close>

definition afterE4E5 :: game where
  "afterE4E5 = play (play initialGame (Move (6, 4) (4, 4))) (Move (1, 4) (3, 4))"

definition afterNc3A6 :: game where
  "afterNc3A6 = play (play initialGame (Move (7, 1) (5, 2))) (Move (1, 0) (2, 0))"

definition afterE4D5Nc3 :: game where
  "afterE4D5Nc3 =
     play (play (play initialGame (Move (6, 4) (4, 4))) (Move (1, 3) (3, 3))) (Move (7, 1) (5, 2))"

section \<open>The search without pruning\<close>

text \<open>
  The reference of the pruning claim, in the specification's words: the same algorithm with
  pruning disabled, that is no window and no early break, and no time cutoff.  A node is
  worth its static evaluation at depth 0 or without moves, and otherwise the maximum
  (white) or minimum (black) of its children, taken over all of them.
\<close>

fun minimaxNoPrune :: "board \<Rightarrow> nat \<Rightarrow> char \<Rightarrow> jsnum" where
  "minimaxNoPrune boardState 0 side = Fin (evaluateBoardSimple boardState)"
| "minimaxNoPrune boardState (Suc d) side =
     (let moves = nodeMoves boardState side in
      if moves = [] then Fin (evaluateBoardSimple boardState)
      else if side = CHR ''w'' then
        foldl (\<lambda>maxEval mv. max maxEval (minimaxNoPrune (makeMoveOnBoard boardState mv) d (CHR ''b'')))
          NegInf moves
      else
        foldl (\<lambda>minEval mv. min minEval (minimaxNoPrune (makeMoveOnBoard boardState mv) d (CHR ''w'')))
          PosInf moves)"

text \<open>
  The root: the moves in the root's order, each scored by the unpruned recursion, the first
  strictly best one kept.
\<close>

fun rootLoopNoPrune ::
  "board \<Rightarrow> nat \<Rightarrow> char \<Rightarrow> move list \<Rightarrow> move option \<Rightarrow> jsnum \<Rightarrow> move option \<times> jsnum" where
  "rootLoopNoPrune boardState d side [] bestMove bestScore = (bestMove, bestScore)"
| "rootLoopNoPrune boardState d side (mv # mvs) bestMove bestScore =
     (let score = minimaxNoPrune (makeMoveOnBoard boardState mv) d
                    (if side = CHR ''w'' then CHR ''b'' else CHR ''w'');
          (bestScore', bestMove') =
             (if side = CHR ''w''
              then (if score > bestScore then (score, Some mv) else (bestScore, bestMove))
              else (if score < bestScore then (score, Some mv) else (bestScore, bestMove)))
      in rootLoopNoPrune boardState d side mvs bestMove' bestScore')"

fun minimaxRootNoPrune :: "board \<Rightarrow> nat \<Rightarrow> char \<Rightarrow> move option \<times> jsnum" where
  "minimaxRootNoPrune boardState (Suc d) side =
     rootLoopNoPrune boardState d side (rootMoves boardState side) None
       (if side = CHR ''w'' then NegInf else PosInf)"

text \<open>
  The relation between the value \<open>v\<close> of a node and the result \<open>r\<close> of a search of that
  node in the window from \<open>a\<close> to \<open>b\<close>: a result at or below \<open>a\<close> is an upper bound of
  the value, a result at or above \<open>b\<close> is a lower bound, a result inside the window is the
  value.
\<close>

definition inWindow :: "jsnum \<Rightarrow> jsnum \<Rightarrow> jsnum \<Rightarrow> jsnum \<Rightarrow> bool" where
  "inWindow a b v r \<longleftrightarrow> (r \<le> a \<longrightarrow> v \<le> r) \<and> (a < r \<and> r < b \<longrightarrow> r = v) \<and> (b \<le> r \<longrightarrow> r \<le> v)"

section \<open>The search on a store of row arrays\<close>

text \<open>
  For the claim that the search leaves the caller's board alone, arrays are objects in a
  store.  A row of a board is an array of cells; the store is the list of all row arrays
  allocated so far, an address being a position in it.  A board is the array of the
  addresses of its eight rows; the search assigns to elements of rows only
  (\<open>nb[tr][tc] = ...\<close>), never to an element of a board array.
\<close>

type_synonym heap = "char list list"

type_synonym bref = "nat list"

definition deref :: "heap \<Rightarrow> bref \<Rightarrow> board" where
  "deref h b = map (\<lambda>a. h ! a) b"

text \<open>
  \<open>cloneBoard\<close>, \<open>b.map(r => r.slice())\<close>: each \<open>slice\<close> allocates a new row with the
  cells of the old one, and \<open>map\<close> collects the new addresses.
\<close>

fun cloneBoardH :: "heap \<Rightarrow> bref \<Rightarrow> heap \<times> bref" where
  "cloneBoardH h [] = (h, [])"
| "cloneBoardH h (a # as) =
     (let h1 = h @ [h ! a];
          (h2, bs) = cloneBoardH h1 as
      in (h2, length h # bs))"

text \<open>The read \<open>nb[r][c]\<close> and the assignment \<open>nb[r][c] = v\<close> through the board array.\<close>

definition readH :: "heap \<Rightarrow> bref \<Rightarrow> int \<Rightarrow> int \<Rightarrow> char" where
  "readH h nb r c = h ! (nb ! nat r) ! nat c"

definition writeH :: "heap \<Rightarrow> bref \<Rightarrow> int \<Rightarrow> int \<Rightarrow> char \<Rightarrow> heap" where
  "writeH h nb r c v = h[nb ! nat r := (h ! (nb ! nat r))[nat c := v]]"

definition makeMoveOnBoardH :: "heap \<Rightarrow> bref \<Rightarrow> move \<Rightarrow> heap \<times> bref" where
  "makeMoveOnBoardH h b mv =
     (let (h1, nb) = cloneBoardH h b;
          (fr, fc) = from_sq mv;
          (tr, tc) = to_sq mv;
          h2 = writeH h1 nb tr tc (readH h1 nb fr fc);
          h3 = writeH h2 nb fr fc (CHR ''.'')
      in (h3, nb))"

text \<open>
  The search as above, with the store passed along.  The generator and the evaluator only
  read their board, so they are applied to its cells.
\<close>

fun maxLoopH ::
  "clock \<Rightarrow> int \<Rightarrow> int \<Rightarrow> (heap \<Rightarrow> bref \<Rightarrow> jsnum \<Rightarrow> jsnum \<Rightarrow> nat \<Rightarrow> jsnum \<times> nat \<times> heap)
     \<Rightarrow> heap \<Rightarrow> bref \<Rightarrow> move list \<Rightarrow> jsnum \<Rightarrow> jsnum \<Rightarrow> jsnum \<Rightarrow> nat \<Rightarrow> jsnum \<times> nat \<times> heap" where
  "maxLoopH clk startTime timeLimitMs child h boardState [] maxEval alpha beta n = (maxEval, n, h)"
| "maxLoopH clk startTime timeLimitMs child h boardState (mv # mvs) maxEval alpha beta n =
     (let (h1, nb) = makeMoveOnBoardH h boardState mv;
          (ev, n1, h2) = child h1 nb alpha beta n;
          maxEval' = max maxEval ev;
          alpha' = max alpha ev
      in if beta \<le> alpha' then (maxEval', n1, h2)
         else if timeUp clk startTime timeLimitMs n1 then (maxEval', Suc n1, h2)
         else maxLoopH clk startTime timeLimitMs child h2 boardState mvs maxEval' alpha' beta (Suc n1))"

fun minLoopH ::
  "clock \<Rightarrow> int \<Rightarrow> int \<Rightarrow> (heap \<Rightarrow> bref \<Rightarrow> jsnum \<Rightarrow> jsnum \<Rightarrow> nat \<Rightarrow> jsnum \<times> nat \<times> heap)
     \<Rightarrow> heap \<Rightarrow> bref \<Rightarrow> move list \<Rightarrow> jsnum \<Rightarrow> jsnum \<Rightarrow> jsnum \<Rightarrow> nat \<Rightarrow> jsnum \<times> nat \<times> heap" where
  "minLoopH clk startTime timeLimitMs child h boardState [] minEval alpha beta n = (minEval, n, h)"
| "minLoopH clk startTime timeLimitMs child h boardState (mv # mvs) minEval alpha beta n =
     (let (h1, nb) = makeMoveOnBoardH h boardState mv;
          (ev, n1, h2) = child h1 nb alpha beta n;
          minEval' = min minEval ev;
          beta' = min beta ev
      in if beta' \<le> alpha then (minEval', n1, h2)
         else if timeUp clk startTime timeLimitMs n1 then (minEval', Suc n1, h2)
         else minLoopH clk startTime timeLimitMs child h2 boardState mvs minEval' alpha beta' (Suc n1))"

fun minimaxH ::
  "clock \<Rightarrow> heap \<Rightarrow> bref \<Rightarrow> nat \<Rightarrow> char \<Rightarrow> jsnum \<Rightarrow> jsnum \<Rightarrow> int \<Rightarrow> int \<Rightarrow> nat
     \<Rightarrow> jsnum \<times> nat \<times> heap" where
  "minimaxH clk h boardState 0 side alpha beta startTime timeLimitMs n =
     (if timeUp clk startTime timeLimitMs n
      then (Fin (evaluateBoardSimple (deref h boardState)), Suc n, h)
      else (Fin (evaluateBoardSimple (deref h boardState)), Suc n, h))"
| "minimaxH clk h boardState (Suc d) side alpha beta startTime timeLimitMs n =
     (if timeUp clk startTime timeLimitMs n
      then (Fin (evaluateBoardSimple (deref h boardState)), Suc n, h)
      else
        let moves = nodeMoves (deref h boardState) side in
        if moves = [] then (Fin (evaluateBoardSimple (deref h boardState)), Suc n, h)
        else if side = CHR ''w'' then
          maxLoopH clk startTime timeLimitMs
            (\<lambda>h' nb a b k. minimaxH clk h' nb d (CHR ''b'') a b startTime timeLimitMs k)
            h boardState moves NegInf alpha beta (Suc n)
        else
          minLoopH clk startTime timeLimitMs
            (\<lambda>h' nb a b k. minimaxH clk h' nb d (CHR ''w'') a b startTime timeLimitMs k)
            h boardState moves PosInf alpha beta (Suc n))"

fun rootLoopH ::
  "clock \<Rightarrow> int \<Rightarrow> int \<Rightarrow> heap \<Rightarrow> bref \<Rightarrow> nat \<Rightarrow> char \<Rightarrow> move list \<Rightarrow> move option \<Rightarrow> jsnum \<Rightarrow> nat
     \<Rightarrow> move option \<times> jsnum \<times> nat \<times> heap" where
  "rootLoopH clk start timeLimitMs h boardState d side [] bestMove bestScore n =
     (bestMove, bestScore, n, h)"
| "rootLoopH clk start timeLimitMs h boardState d side (mv # mvs) bestMove bestScore n =
     (let (h1, nb) = makeMoveOnBoardH h boardState mv;
          (score, n1, h2) = minimaxH clk h1 nb d (if side = CHR ''w'' then CHR ''b'' else CHR ''w'')
                              NegInf PosInf start timeLimitMs n;
          (bestScore', bestMove') =
             (if side = CHR ''w''
              then (if score > bestScore then (score, Some mv) else (bestScore, bestMove))
              else (if score < bestScore then (score, Some mv) else (bestScore, bestMove)))
      in if timeUp clk start timeLimitMs n1 then (bestMove', bestScore', Suc n1, h2)
         else rootLoopH clk start timeLimitMs h2 boardState d side mvs bestMove' bestScore' (Suc n1))"

fun minimaxRootH ::
  "clock \<Rightarrow> heap \<Rightarrow> bref \<Rightarrow> nat \<Rightarrow> char \<Rightarrow> int \<Rightarrow> nat \<Rightarrow> move option \<times> jsnum \<times> nat \<times> heap" where
  "minimaxRootH clk h boardState (Suc d) side timeLimitMs n =
     (let start = clk n;
          bestScore = (if side = CHR ''w'' then NegInf else PosInf)
      in rootLoopH clk start timeLimitMs h boardState d side (rootMoves (deref h boardState) side)
           None bestScore (Suc n))"

text \<open>
  A board array is valid in a store when its eight addresses are allocated and the rows
  there have eight cells.  A store \<open>h'\<close> keeps a store \<open>h\<close> when every row of \<open>h\<close> is at
  its address in \<open>h'\<close> with the same cells.
\<close>

definition validRef :: "heap \<Rightarrow> bref \<Rightarrow> bool" where
  "validRef h b \<longleftrightarrow> (\<forall>a \<in> set b. a < length h) \<and> wf_board (deref h b)"

definition keeps :: "heap \<Rightarrow> heap \<Rightarrow> bool" where
  "keeps h h' \<longleftrightarrow> length h \<le> length h' \<and> take (length h) h' = h"

text \<open>
  A position with two kings and two pawns, as a board and as a store holding its rows at
  the addresses 0 to 7.
\<close>

definition kpBoard :: board where
  "kpBoard =
    [''....k...'',
     ''........'',
     ''........'',
     ''...p....'',
     ''....P...'',
     ''........'',
     ''........'',
     ''....K...'']"

definition kpRef :: bref where
  "kpRef = [0, 1, 2, 3, 4, 5, 6, 7]"

text \<open>The cell values of a board of the game: the empty cell and the twelve piece letters.\<close>

definition validCells :: "board \<Rightarrow> bool" where
  "validCells b \<longleftrightarrow> (\<forall>row \<in> set b. \<forall>p \<in> set row. p \<in> set ''.PNBRQKpnbrqk'')"

section \<open>The evaluator is the material sum\<close>

lemma cellScore_material: "cellScore p = materialValue p"
  by (simp add: cellScore_def materialValue_def pieceOf_def pieceValues_def toLowerCase_def
      upperLetters_def lowerLetters_def)

lemma row8: "length xs = 8 \<Longrightarrow> map (\<lambda>c. xs ! nat c) idx8 = xs"
  by (auto simp: idx8_def list_eq_iff_nth_eq less_Suc_eq numeral_nat nth_Cons')

lemma foldl_add_sum: "foldl (\<lambda>s x. s + f x) a xs = (a::int) + sum_list (map f xs)"
  by (induction xs arbitrary: a) simp_all

lemma cells_of_squares:
  assumes "wf_board b"
  shows "map (\<lambda>(r, c). sq b r c) squares = concat b"
proof -
  have rows: "map (\<lambda>r. b ! nat r) idx8 = b"
    using assms by (simp add: wf_board_def row8)
  have "map (\<lambda>(r, c). sq b r c) squares
        = concat (map (\<lambda>r. map (\<lambda>c. (b ! nat r) ! nat c) idx8) idx8)"
    by (simp add: squares_def sq_def map_concat comp_def)
  also have "\<dots> = concat (map (\<lambda>r. b ! nat r) idx8)"
  proof -
    have "map (\<lambda>c. (b ! nat r) ! nat c) idx8 = b ! nat r" if "r \<in> set idx8" for r
    proof -
      from that assms have "nat r < length b" by (auto simp: idx8_def wf_board_def)
      then have "b ! nat r \<in> set b" by simp
      with assms show ?thesis by (simp add: wf_board_def row8)
    qed
    then show ?thesis by (simp cong: map_cong)
  qed
  also have "\<dots> = concat b" by (simp add: rows)
  finally show ?thesis .
qed

lemma sum_list_skip_empty:
  "sum_list (map materialValue (filter (\<lambda>p. p \<noteq> CHR ''.'') xs)) = sum_list (map materialValue xs)"
  by (induction xs) (simp_all add: materialValue_def pieceOf_def)

lemma eval_fold:
  "evaluateBoardSimple b = sum_list (map cellScore (map (\<lambda>(r, c). sq b r c) squares))"
  unfolding evaluateBoardSimple_def
  by (simp add: foldl_add_sum[where f="\<lambda>(r,c). cellScore (sq b r c)" and a=0,
        simplified case_prod_unfold] case_prod_unfold comp_def)

lemma wf_initialBoard: "wf_board initialBoard"
  by (simp add: wf_board_def initialBoard_def)

text \<open>
  C7.  On every 8 by 8 board \<open>evaluateBoardSimple\<close> is the sum, over the occupied cells, of
  pawn 100, knight 320, bishop 330, rook 500, queen 900, king 20000, positive for white
  and negative for black; and it is 0 on the starting position.
\<close>

theorem evaluateBoardSimple_material:
  "(wf_board b \<longrightarrow> evaluateBoardSimple b = materialSum b) \<and> evaluateBoardSimple initialBoard = 0"
proof
  show "wf_board b \<longrightarrow> evaluateBoardSimple b = materialSum b"
  proof
    assume wf: "wf_board b"
    show "evaluateBoardSimple b = materialSum b"
      by (simp only: eval_fold cells_of_squares[OF wf] materialSum_def sum_list_skip_empty)
         (simp add: cellScore_material[abs_def])
  qed
  show "evaluateBoardSimple initialBoard = 0" by code_simp
qed

theorem evaluateBoardSimple_material_witness:
  "wf_board initialBoard \<and> evaluateBoardSimple initialBoard = materialSum initialBoard
   \<and> materialSum initialBoard = 0"
proof -
  have wf: "wf_board initialBoard" by (rule wf_initialBoard)
  from evaluateBoardSimple_material[of initialBoard] wf show ?thesis by simp
qed

section \<open>The validating executor and undo\<close>

lemma makeMoveIfLegal_throw_value: "makeMoveIfLegal s mv = Some (Inl e) \<Longrightarrow> e = TypeError"
  by (cases e) simp

lemma getCell_wf:
  "wf_board b \<Longrightarrow> getCell b r c =
     (if inRange r then (if inRange c then Inr (Some (sq b r c)) else Inr None) else Inl TypeError)"
  by (auto simp: getCell_def wf_board_def inRange_def sq_def Let_def)

text \<open>
  C10.  Whenever \<open>makeMoveIfLegal\<close> returns \<open>false\<close>, the state after the call (board,
  side to move, move history and move list) is the state before it.
\<close>

theorem makeMoveIfLegal_reject_atomic:
  "makeMoveIfLegal s mv = Some (Inr (False, s')) \<Longrightarrow> s' = s"
  by (auto simp: makeMoveIfLegal_def Let_def
      split: prod.splits sum.splits option.splits if_splits bool.splits)

theorem makeMoveIfLegal_reject_atomic_witness:
  "makeMoveIfLegal initialGame (Move (7, 0) (4, 0)) = Some (Inr (False, initialGame))"
proof -
  have h: "makeMoveIfLegal initialGame (Move (7, 0) (4, 0)) = Some (Inr (False, initialGame))"
    by code_simp
  from makeMoveIfLegal_reject_atomic[OF h] h show ?thesis by simp
qed

text \<open>
  C4, as the code has it.  On an 8 by 8 board, a request with a coordinate outside the board
  never changes the state and is never accepted.  It returns \<open>false\<close> when the origin is on
  the board and holds no piece of the side to move; in every other case (origin off the
  board, or a piece of the side to move sent off the board) it throws a \<open>TypeError\<close>.
\<close>

theorem makeMoveIfLegal_off_board:
  assumes "wf_board (board s)"
    and "\<not> inRange fr \<or> \<not> inRange fc \<or> \<not> inRange tr \<or> \<not> inRange tc"
  shows "makeMoveIfLegal s (Move (fr, fc) (tr, tc)) =
     (if inRange fr \<and> inRange fc \<and> \<not> ownedBy (sideToMove s) (sq (board s) fr fc)
      then Some (Inr (False, s)) else Some (Inl TypeError))"
  using assms
  by (auto simp: makeMoveIfLegal_def getCell_wf isPieceOwnedBySide_def ownedBy_def)

theorem makeMoveIfLegal_off_board_witness:
  "wf_board (board initialGame) \<and> \<not> inRange 8
   \<and> makeMoveIfLegal initialGame (Move (6, 0) (8, 0)) = Some (Inl TypeError)
   \<and> makeMoveIfLegal initialGame (Move (1, 0) (8, 0)) = Some (Inr (False, initialGame))"
proof -
  have wf: "wf_board (board initialGame)" by (simp add: initialGame_def wf_initialBoard)
  have off: "\<not> inRange 8" by (simp add: inRange_def)
  have o1: "ownedBy (sideToMove initialGame) (sq (board initialGame) 6 0)" by code_simp
  have o2: "\<not> ownedBy (sideToMove initialGame) (sq (board initialGame) 1 0)" by code_simp
  have r: "inRange 6" "inRange 0" "inRange 1" by (simp_all add: inRange_def)
  from makeMoveIfLegal_off_board[OF wf, of 6 0 8 0] makeMoveIfLegal_off_board[OF wf, of 1 0 8 0]
    wf off o1 o2 r
  show ?thesis by simp
qed

text \<open>
  C4 as stated fails: from the starting position the request with origin row 8 is not
  answered by \<open>false\<close>, it throws.
\<close>

theorem makeMoveIfLegal_off_board_counterexample:
  "\<not> inRange 8 \<and> makeMoveIfLegal initialGame (Move (8, 0) (0, 0)) = Some (Inl TypeError)"
  by code_simp

lemma undoBtn_click_value: "fst (undoBtn_click s) = JSUndefined"
  by (simp add: undoBtn_click_def Let_def)

text \<open>
  C9, as the code has it.  With an empty history the click handler of the undo button leaves
  the board, the side to move, the history and the move list unchanged; its value is
  \<open>undefined\<close>, as it is after a successful undo.
\<close>

theorem undo_empty_history:
  "moves s = [] \<Longrightarrow> undoBtn_click s = (JSUndefined, s)"
  by (simp add: undoBtn_click_def)

theorem undo_empty_history_witness:
  "moves initialGame = [] \<and> undoBtn_click initialGame = (JSUndefined, initialGame)"
proof -
  have h: "moves initialGame = []" by (simp add: initialGame_def)
  from undo_empty_history[OF h] h show ?thesis by simp
qed

text \<open>
  C9 as stated fails: on the empty history of the starting state the handler does not return
  \<open>false\<close>; it returns the value it also returns after undoing 1. e2-e4.
\<close>

theorem undo_empty_history_counterexample:
  "moves initialGame = [] \<and> fst (undoBtn_click initialGame) \<noteq> JSBool False
   \<and> moves (play initialGame (Move (6, 4) (4, 4))) \<noteq> []
   \<and> fst (undoBtn_click initialGame) = fst (undoBtn_click (play initialGame (Move (6, 4) (4, 4))))"
  by code_simp

text \<open>
  Executing an accepted move and undoing it gives back the state before the move.
\<close>

lemma setCell_undo:
  assumes "nat fr < length b" "nat fc < length (b ! nat fr)" "nat tr < length b" "nat tc < length (b ! nat tr)"
     "0 \<le> fr" "0 \<le> fc" "0 \<le> tr" "0 \<le> tc" "fr \<noteq> tr \<or> fc \<noteq> tc"
  shows "setCell (setCell (setCell (setCell b tr tc (sq b fr fc)) fr fc e) fr fc (sq b fr fc)) tr tc (sq b tr tc) = b"
  using assms
  apply (simp add: setCell_def sq_def)
  apply (cases "fr = tr")
   apply (simp add: list_update_swap)
  apply (simp add: list_update_swap nth_list_update)
  done

lemma getCell_SomeD:
  "getCell b r c = Inr (Some p) \<Longrightarrow>
     0 \<le> r \<and> nat r < length b \<and> 0 \<le> c \<and> nat c < length (b ! nat r) \<and> p = sq b r c"
  by (auto simp: getCell_def sq_def Let_def split: if_splits)

lemma makeMoveIfLegal_TrueD:
  assumes "makeMoveIfLegal s (Move (fr, fc) (tr, tc)) = Some (Inr (True, s'))"
  shows "getCell (board s) fr fc = Inr (Some (sq (board s) fr fc))
       \<and> getCell (board s) tr tc = Inr (Some (sq (board s) tr tc))
       \<and> (fr \<noteq> tr \<or> fc \<noteq> tc)
       \<and> ownedBy (sideToMove s) (sq (board s) fr fc)
       \<and> s' = commitMove s fr fc tr tc (sq (board s) fr fc) (sq (board s) tr tc)"
  using assms
  by (auto simp: makeMoveIfLegal_def isPieceOwnedBySide_def ownedBy_def
      split: sum.splits option.splits if_splits bool.splits dest!: getCell_SomeD)

lemma accepted_then_undo:
  assumes side: "sideToMove s = CHR ''w'' \<or> sideToMove s = CHR ''b''"
    and ok: "makeMoveIfLegal s mv = Some (Inr (True, s'))"
  shows "snd (undoBtn_click s') = s"
proof -
  obtain fr fc tr tc where mv: "mv = Move (fr, fc) (tr, tc)"
    by (cases mv) auto
  let ?b = "board s"
  from makeMoveIfLegal_TrueD[OF ok[unfolded mv]]
  have f: "getCell ?b fr fc = Inr (Some (sq ?b fr fc))"
    and t: "getCell ?b tr tc = Inr (Some (sq ?b tr tc))"
    and ne: "fr \<noteq> tr \<or> fc \<noteq> tc"
    and s': "s' = commitMove s fr fc tr tc (sq ?b fr fc) (sq ?b tr tc)"
    by simp_all
  from getCell_SomeD[OF f] getCell_SomeD[OF t] ne
  have b: "setCell (setCell (setCell (setCell ?b tr tc (sq ?b fr fc)) fr fc (CHR ''.''))
              fr fc (sq ?b fr fc)) tr tc (sq ?b tr tc) = ?b"
    by (intro setCell_undo) simp_all
  show ?thesis
    using side b by (auto simp: s' undoBtn_click_def commitMove_def Let_def)
qed

section \<open>The validating executor always returns\<close>

text \<open>
  The loop of \<open>isPathClear\<close> ends for every board and every pair of squares: along a
  delta that changes the row the row leaves the board array after finitely many steps and
  the read throws; along a delta within a row the column leaves the row and the read gives
  \<open>undefined\<close>; and with both deltas zero the loop is not entered.  So \<open>makeMoveIfLegal\<close>
  returns a value or throws; it never fails to return.
\<close>

lemma getCell_InrD: "getCell b r c = Inr v \<Longrightarrow> 0 \<le> r \<and> nat r < length b"
  by (auto simp: getCell_def Let_def split: if_splits)

lemma getCell_Some_colD:
  "getCell b r c = Inr (Some x) \<Longrightarrow> 0 \<le> c \<and> nat c < length (b ! nat r)"
  by (auto simp: getCell_def Let_def split: if_splits)

lemma pathLoop_returns_rows:
  assumes "dr \<noteq> 0"
  shows "\<exists>y. pathLoop b dr dc tr tc r c = Some y"
proof (induction "if dr > 0 then nat (int (length b) - r) else nat (r + 1)" arbitrary: r c
    rule: less_induct)
  case less
  show ?case
  proof (cases "(r \<noteq> tr \<or> c \<noteq> tc) \<and> getCell b r c = Inr (Some (CHR ''.''))")
    case True
    then have rng: "0 \<le> r" "nat r < length b" using getCell_InrD by blast+
    have "(if dr > 0 then nat (int (length b) - (r + dr)) else nat (r + dr + 1))
          < (if dr > 0 then nat (int (length b) - r) else nat (r + 1))"
      using rng assms by auto
    from less[OF this] obtain y where "pathLoop b dr dc tr tc (r + dr) (c + dc) = Some y" by blast
    with True show ?thesis by (subst pathLoop.simps) simp
  next
    case False
    then show ?thesis
      by (subst pathLoop.simps) (auto split: sum.splits)
  qed
qed

lemma pathLoop_returns_cols:
  assumes "dc \<noteq> 0"
  shows "\<exists>y. pathLoop b 0 dc tr tc r c = Some y"
proof (induction "if dc > 0 then nat (int (length (b ! nat r)) - c) else nat (c + 1)" arbitrary: c
    rule: less_induct)
  case less
  show ?case
  proof (cases "(r \<noteq> tr \<or> c \<noteq> tc) \<and> getCell b r c = Inr (Some (CHR ''.''))")
    case True
    then have rng: "0 \<le> c" "nat c < length (b ! nat r)" using getCell_Some_colD by blast+
    have "(if dc > 0 then nat (int (length (b ! nat r)) - (c + dc)) else nat (c + dc + 1))
          < (if dc > 0 then nat (int (length (b ! nat r)) - c) else nat (c + 1))"
      using rng assms by auto
    from less[OF this] obtain y where "pathLoop b 0 dc tr tc r (c + dc) = Some y" by blast
    with True show ?thesis by (subst pathLoop.simps) simp
  next
    case False
    then show ?thesis
      by (subst pathLoop.simps) (auto split: sum.splits)
  qed
qed

lemma isPathClear_returns: "\<exists>y. isPathClear b fr fc tr tc = Some y"
proof (cases "sgn (tr - fr) = 0")
  case r0: True
  show ?thesis
  proof (cases "sgn (tc - fc) = 0")
    case True
    with r0 have "tr = fr" "tc = fc" by (simp_all add: sgn_if split: if_splits)
    then show ?thesis by (simp add: isPathClear_def pathLoop.simps)
  next
    case False
    with r0 show ?thesis by (simp add: isPathClear_def Let_def pathLoop_returns_cols)
  qed
next
  case False
  then show ?thesis by (simp add: isPathClear_def Let_def pathLoop_returns_rows)
qed

lemma shapeCheck_not_None: "shapeCheck b piece target fr fc tr tc \<noteq> None"
proof -
  obtain y where y: "isPathClear b fr fc tr tc = Some y"
    using isPathClear_returns by blast
  show ?thesis
    by (simp only: shapeCheck_def Let_def y option.distinct simp_thms if_cancel split: if_split)
qed

lemma makeMoveIfLegal_returns: "\<exists>y. makeMoveIfLegal s mv = Some y"
proof -
  obtain fr fc tr tc where mv: "mv = Move (fr, fc) (tr, tc)" by (cases mv) auto
  show ?thesis
    unfolding makeMoveIfLegal_def mv
    by (simp add: shapeCheck_not_None split: sum.splits option.splits bool.splits)
qed

section \<open>Moves of the generator are on the board\<close>

declare ray.simps [simp del]

lemma ray_props:
  "mv \<in> set (ray b p orig d rr cc) \<Longrightarrow>
     from_sq mv = orig \<and> inRange (fst (to_sq mv)) \<and> inRange (snd (to_sq mv))"
proof (induction b p orig d rr cc rule: ray.induct)
  case (1 b p orig d rr cc)
  from "1.prems" have m: "d \<noteq> (0, 0)" "inRange rr" "inRange cc"
    by (auto simp: ray.simps[of b p orig d rr cc] split: if_splits)
  show ?case
  proof (cases "sq b rr cc = CHR ''.''")
    case True
    with "1.prems" m have "mv = Move orig (rr, cc) \<or> mv \<in> set (ray b p orig d (rr + fst d) (cc + snd d))"
      by (simp add: ray.simps[of b p orig d rr cc])
    then show ?thesis
    proof
      assume "mv = Move orig (rr, cc)"
      with m show ?thesis by simp
    next
      assume "mv \<in> set (ray b p orig d (rr + fst d) (cc + snd d))"
      with "1.IH"[OF m(1) _ refl True] m show ?thesis by simp
    qed
  next
    case False
    with "1.prems" m show ?thesis
      by (auto simp: ray.simps[of b p orig d rr cc] split: if_splits)
  qed
qed

lemma pawnMoves_props:
  "inRange r \<Longrightarrow> inRange c \<Longrightarrow> mv \<in> set (pawnMoves b p r c) \<Longrightarrow>
     from_sq mv = (r, c) \<and> inRange (fst (to_sq mv)) \<and> inRange (snd (to_sq mv))"
  by (auto simp: pawnMoves_def Let_def inRange_def split: if_splits)

lemma knightMoves_props:
  "mv \<in> set (knightMoves b p r c) \<Longrightarrow>
     from_sq mv = (r, c) \<and> inRange (fst (to_sq mv)) \<and> inRange (snd (to_sq mv))"
  by (auto simp: knightMoves_def Let_def split: if_splits)

lemma kingMoves_props:
  "mv \<in> set (kingMoves b p r c) \<Longrightarrow>
     from_sq mv = (r, c) \<and> inRange (fst (to_sq mv)) \<and> inRange (snd (to_sq mv))"
  by (auto simp: kingMoves_def Let_def split: if_splits)

lemma slideMoves_props:
  "mv \<in> set (slideMoves b p t r c) \<Longrightarrow>
     from_sq mv = (r, c) \<and> inRange (fst (to_sq mv)) \<and> inRange (snd (to_sq mv))"
  by (auto simp: slideMoves_def Let_def dest: ray_props split: if_splits)

lemma squares_inRange: "(r, c) \<in> set squares \<Longrightarrow> inRange r \<and> inRange c"
  by (auto simp: squares_def idx8_def inRange_def)

lemma movesFrom_props:
  "inRange r \<Longrightarrow> inRange c \<Longrightarrow> mv \<in> set (movesFrom b side r c) \<Longrightarrow>
     from_sq mv = (r, c) \<and> inRange (fst (to_sq mv)) \<and> inRange (snd (to_sq mv))"
  unfolding movesFrom_def Let_def
  by (auto split: if_splits dest: pawnMoves_props knightMoves_props kingMoves_props slideMoves_props)

lemma generated_in_range:
  assumes "mv \<in> set (generateMovesForSide b side)"
  shows "inRange (fst (from_sq mv)) \<and> inRange (snd (from_sq mv))
       \<and> inRange (fst (to_sq mv)) \<and> inRange (snd (to_sq mv))"
proof -
  from assms obtain r c where rc: "(r, c) \<in> set squares" and m: "mv \<in> set (movesFrom b side r c)"
    by (auto simp: generateMovesForSide_def)
  from squares_inRange[OF rc] movesFrom_props[OF _ _ m] show ?thesis by simp
qed

text \<open>
  What the generator guarantees of its moves, for either side: the origin holds a piece of
  the side; the destination is empty or holds an upper-case (white) piece, because
  \<open>isOpposite (pieceColor p) t\<close> only tests that \<open>t\<close> is upper case.  For black this is the
  containment property; for white it is its opposite.  A pawn two-step is generated only
  from the starting rank through two empty squares.
\<close>

lemma isOpposite_pieceColor: "isOpposite (pieceColor p) t \<longleftrightarrow> t = toUpperCase t"
  by (simp add: isOpposite_def pieceColor_def toUpperCase_def lowerLetters_def upperLetters_def)

lemma ray_dest:
  "mv \<in> set (ray b p orig d rr cc) \<Longrightarrow>
     sq b (fst (to_sq mv)) (snd (to_sq mv)) = CHR ''.''
     \<or> sq b (fst (to_sq mv)) (snd (to_sq mv)) = toUpperCase (sq b (fst (to_sq mv)) (snd (to_sq mv)))"
proof (induction b p orig d rr cc rule: ray.induct)
  case (1 b p orig d rr cc)
  from "1.prems" have m: "d \<noteq> (0, 0)" "inRange rr" "inRange cc"
    by (auto simp: ray.simps[of b p orig d rr cc] split: if_splits)
  show ?case
  proof (cases "sq b rr cc = CHR ''.''")
    case True
    with "1.prems" m have "mv = Move orig (rr, cc) \<or> mv \<in> set (ray b p orig d (rr + fst d) (cc + snd d))"
      by (simp add: ray.simps[of b p orig d rr cc])
    then show ?thesis
    proof
      assume "mv = Move orig (rr, cc)"
      with True show ?thesis by simp
    next
      assume "mv \<in> set (ray b p orig d (rr + fst d) (cc + snd d))"
      with "1.IH"[OF m(1) _ refl True] m show ?thesis by simp
    qed
  next
    case False
    with "1.prems" m show ?thesis
      by (auto simp: ray.simps[of b p orig d rr cc] isOpposite_pieceColor Let_def split: if_splits)
  qed
qed

lemma pawnMoves_dest:
  "mv \<in> set (pawnMoves b p r c) \<Longrightarrow>
     sq b (fst (to_sq mv)) (snd (to_sq mv)) = CHR ''.''
     \<or> sq b (fst (to_sq mv)) (snd (to_sq mv)) = toUpperCase (sq b (fst (to_sq mv)) (snd (to_sq mv)))"
  by (auto simp: pawnMoves_def Let_def isOpposite_pieceColor split: if_splits)

lemma knightMoves_dest:
  "mv \<in> set (knightMoves b p r c) \<Longrightarrow>
     sq b (fst (to_sq mv)) (snd (to_sq mv)) = CHR ''.''
     \<or> sq b (fst (to_sq mv)) (snd (to_sq mv)) = toUpperCase (sq b (fst (to_sq mv)) (snd (to_sq mv)))"
  by (auto simp: knightMoves_def Let_def isOpposite_pieceColor split: if_splits)

lemma kingMoves_dest:
  "mv \<in> set (kingMoves b p r c) \<Longrightarrow>
     sq b (fst (to_sq mv)) (snd (to_sq mv)) = CHR ''.''
     \<or> sq b (fst (to_sq mv)) (snd (to_sq mv)) = toUpperCase (sq b (fst (to_sq mv)) (snd (to_sq mv)))"
  by (auto simp: kingMoves_def Let_def isOpposite_pieceColor split: if_splits)

lemma slideMoves_dest:
  "mv \<in> set (slideMoves b p t r c) \<Longrightarrow>
     sq b (fst (to_sq mv)) (snd (to_sq mv)) = CHR ''.''
     \<or> sq b (fst (to_sq mv)) (snd (to_sq mv)) = toUpperCase (sq b (fst (to_sq mv)) (snd (to_sq mv)))"
  by (auto simp: slideMoves_def Let_def dest: ray_dest split: if_splits)

lemma movesFrom_cases:
  assumes "mv \<in> set (movesFrom b side r c)"
  obtains "mv \<in> set (pawnMoves b (sq b r c) r c)" "toLowerCase (sq b r c) = CHR ''p''"
  | "mv \<in> set (knightMoves b (sq b r c) r c)"
  | t where "mv \<in> set (slideMoves b (sq b r c) t r c)"
  | "mv \<in> set (kingMoves b (sq b r c) r c)"
  using assms unfolding movesFrom_def Let_def by (auto split: if_splits)

lemma movesFrom_dest:
  assumes "mv \<in> set (movesFrom b side r c)"
  shows "sq b (fst (to_sq mv)) (snd (to_sq mv)) = CHR ''.''
     \<or> sq b (fst (to_sq mv)) (snd (to_sq mv)) = toUpperCase (sq b (fst (to_sq mv)) (snd (to_sq mv)))"
  using assms
  by (rule movesFrom_cases) (blast dest: pawnMoves_dest knightMoves_dest slideMoves_dest kingMoves_dest)+

lemma generated_destination:
  assumes "mv \<in> set (generateMovesForSide b side)"
  shows "sq b (fst (to_sq mv)) (snd (to_sq mv)) = CHR ''.''
     \<or> sq b (fst (to_sq mv)) (snd (to_sq mv)) = toUpperCase (sq b (fst (to_sq mv)) (snd (to_sq mv)))"
  using assms by (auto simp: generateMovesForSide_def dest: movesFrom_dest)

lemma not_upper_is_lower: "p \<noteq> toUpperCase p \<Longrightarrow> p = toLowerCase p"
  by (simp add: toUpperCase_def toLowerCase_def lowerLetters_def upperLetters_def split: if_splits)

lemma movesFrom_origin:
  assumes "mv \<in> set (movesFrom b side r c)"
  shows "ownedBy side (sq b r c)"
proof -
  from assms have "sq b r c \<noteq> CHR ''.''" and "(side = CHR ''w'') = (sq b r c = toUpperCase (sq b r c))"
    by (auto simp: movesFrom_def Let_def split: if_splits)
  then show ?thesis by (auto simp: ownedBy_def dest: not_upper_is_lower)
qed

lemma generated_origin:
  assumes "mv \<in> set (generateMovesForSide b side)"
  shows "ownedBy side (sq b (fst (from_sq mv)) (snd (from_sq mv)))"
proof -
  from assms obtain r c where rc: "(r, c) \<in> set squares" and m: "mv \<in> set (movesFrom b side r c)"
    by (auto simp: generateMovesForSide_def)
  from squares_inRange[OF rc] movesFrom_props[OF _ _ m] have "from_sq mv = (r, c)" by simp
  with movesFrom_origin[OF m] show ?thesis by simp
qed

lemma valid_cell:
  assumes "wf_board b" "validCells b" "inRange r" "inRange c"
  shows "sq b r c \<in> set ''.PNBRQKpnbrqk''"
proof -
  from assms have "nat r < length b" by (auto simp: wf_board_def inRange_def)
  then have row: "b ! nat r \<in> set b" by simp
  with assms have "nat c < length (b ! nat r)" by (auto simp: wf_board_def inRange_def)
  then have "b ! nat r ! nat c \<in> set (b ! nat r)" by simp
  with row assms(2) show ?thesis unfolding validCells_def sq_def by blast
qed

lemma upper_not_black:
  assumes "p \<in> set ''.PNBRQKpnbrqk''" and "p = CHR ''.'' \<or> p = toUpperCase p"
  shows "\<not> ownedBy (CHR ''b'') p"
proof -
  from assms(1) have "p = CHR ''.'' \<or> p = CHR ''P'' \<or> p = CHR ''N'' \<or> p = CHR ''B''
      \<or> p = CHR ''R'' \<or> p = CHR ''Q'' \<or> p = CHR ''K'' \<or> p = CHR ''p'' \<or> p = CHR ''n''
      \<or> p = CHR ''b'' \<or> p = CHR ''r'' \<or> p = CHR ''q'' \<or> p = CHR ''k''"
    by simp
  then show ?thesis
    using assms(2)
    by (elim disjE)
       (simp_all add: ownedBy_def toUpperCase_def toLowerCase_def lowerLetters_def upperLetters_def)
qed

lemma generated_black_contained:
  assumes "wf_board b" "validCells b" "mv \<in> set (generateMovesForSide b (CHR ''b''))"
  shows "ownedBy (CHR ''b'') (sq b (fst (from_sq mv)) (snd (from_sq mv)))
       \<and> \<not> ownedBy (CHR ''b'') (sq b (fst (to_sq mv)) (snd (to_sq mv)))"
proof
  show "ownedBy (CHR ''b'') (sq b (fst (from_sq mv)) (snd (from_sq mv)))"
    by (rule generated_origin[OF assms(3)])
  from generated_in_range[OF assms(3)]
  have "sq b (fst (to_sq mv)) (snd (to_sq mv)) \<in> set ''.PNBRQKpnbrqk''"
    by (intro valid_cell[OF assms(1,2)]) simp_all
  then show "\<not> ownedBy (CHR ''b'') (sq b (fst (to_sq mv)) (snd (to_sq mv)))"
    using generated_destination[OF assms(3)] by (rule upper_not_black)
qed

lemma pawnMoves_double_step:
  assumes m: "mv \<in> set (pawnMoves b p r c)"
    and two: "to_sq mv = (r + 2, c) \<or> to_sq mv = (r - 2, c)"
  shows "((r = 6 \<and> p = toUpperCase p \<and> to_sq mv = (4, c) \<and> sq b 5 c = CHR ''.'')
          \<or> (r = 1 \<and> p \<noteq> toUpperCase p \<and> to_sq mv = (3, c) \<and> sq b 2 c = CHR ''.''))
         \<and> sq b (fst (to_sq mv)) (snd (to_sq mv)) = CHR ''.''"
proof -
  let ?dir = "if p = toUpperCase p then - 1 else 1 :: int"
  let ?nr = "r + ?dir"
  let ?A = "if inRange ?nr \<and> sq b ?nr c = CHR ''.'' then [Move (r, c) (?nr, c)] else []"
  let ?B = "concat (map (\<lambda>dc. let nc = c + dc in
                          if inRange ?nr \<and> inRange nc \<and> sq b ?nr nc \<noteq> CHR ''.''
                             \<and> isOpposite (pieceColor p) (sq b ?nr nc)
                          then [Move (r, c) (?nr, nc)] else [])
                     [- 1, 1])"
  let ?C = "if (r = 6 \<and> p = toUpperCase p) \<or> (r = 1 \<and> p \<noteq> toUpperCase p)
            then (let rr = r + ?dir * 2 in
                  if sq b (r + ?dir) c = CHR ''.'' \<and> sq b rr c = CHR ''.''
                  then [Move (r, c) (rr, c)] else [])
            else []"
  have "pawnMoves b p r c = ?A @ ?B @ ?C" by (simp add: pawnMoves_def Let_def)
  with m consider "mv \<in> set ?A" | "mv \<in> set ?B" | "mv \<in> set ?C" by auto
  then show ?thesis
  proof cases
    case 1
    then have "to_sq mv = (?nr, c)" by (simp split: if_splits)
    with two show ?thesis by (simp split: if_splits)
  next
    case 2
    then have "snd (to_sq mv) = c - 1 \<or> snd (to_sq mv) = c + 1"
      by (auto simp: Let_def split: if_splits)
    with two show ?thesis by auto
  next
    case 3
    then show ?thesis by (auto simp: Let_def split: if_splits)
  qed
qed

lemma generated_pawn_double_step:
  assumes g: "mv \<in> set (generateMovesForSide b side)"
    and fr: "from_sq mv = (r, c)" and pawn: "toLowerCase (sq b r c) = CHR ''p''"
    and two: "to_sq mv = (r + 2, c) \<or> to_sq mv = (r - 2, c)"
  shows "((r = 6 \<and> sq b r c = toUpperCase (sq b r c) \<and> to_sq mv = (4, c)
            \<and> sq b 5 c = CHR ''.'')
          \<or> (r = 1 \<and> sq b r c \<noteq> toUpperCase (sq b r c) \<and> to_sq mv = (3, c)
            \<and> sq b 2 c = CHR ''.''))
         \<and> sq b (fst (to_sq mv)) (snd (to_sq mv)) = CHR ''.''"
proof -
  from g obtain r' c' where rc: "(r', c') \<in> set squares" and m: "mv \<in> set (movesFrom b side r' c')"
    by (auto simp: generateMovesForSide_def)
  from squares_inRange[OF rc] movesFrom_props[OF _ _ m] fr have e: "r' = r" "c' = c" by simp_all
  from m pawn have "mv \<in> set (pawnMoves b (sq b r c) r c)"
    unfolding e movesFrom_def Let_def by (simp split: if_splits)
  from pawnMoves_double_step[OF this two] show ?thesis .
qed

section \<open>Defects shown on positions of play\<close>

text \<open>
  C5.  After 1. Nb1-c3 a7-a6 the white pawn on c2 has the knight on c3 in front of it and c4
  is empty: \<open>makeMoveIfLegal\<close> accepts the two-step c2-c4 over the knight, which the
  generator, testing the intermediate square, does not produce.
\<close>

theorem pawn_jump_accepted:
  "sq (board afterNc3A6) 6 2 = CHR ''P'' \<and> sq (board afterNc3A6) 5 2 = CHR ''N''
   \<and> sq (board afterNc3A6) 4 2 = CHR ''.'' \<and> sideToMove afterNc3A6 = CHR ''w''
   \<and> accepted afterNc3A6 (Move (6, 2) (4, 2))
   \<and> Move (6, 2) (4, 2) \<notin> set (generateMovesForSide (board afterNc3A6) (CHR ''w''))"
  by code_simp

text \<open>
  C3.  On the starting position the generator returns, for white, the knight move from b1
  onto the white pawn on d2: the destination holds a piece of the moving side.  It returns
  40 moves where 20 are pseudo-legal.
\<close>

theorem generator_friendly_capture:
  "Move (7, 1) (6, 3) \<in> set (generateMovesForSide initialBoard (CHR ''w''))
   \<and> ownedBy (CHR ''w'') (sq initialBoard 7 1) \<and> ownedBy (CHR ''w'') (sq initialBoard 6 3)
   \<and> length (generateMovesForSide initialBoard (CHR ''w'')) = 40"
  by code_simp

text \<open>
  C2.  After 1. e2-e4 e7-e5 the generator returns for white, the side to move, the knight
  move from b1 onto the pawn on d2; \<open>makeMoveIfLegal\<close> rejects it, and the undo that follows
  takes back e7-e5: neither the board nor the side to move is as before the move.
\<close>

theorem generated_move_rejected_then_undo:
  "Move (7, 1) (6, 3) \<in> set (generateMovesForSide (board afterE4E5) (sideToMove afterE4E5))
   \<and> makeMoveIfLegal afterE4E5 (Move (7, 1) (6, 3)) = Some (Inr (False, afterE4E5))
   \<and> board (snd (undoBtn_click (play afterE4E5 (Move (7, 1) (6, 3))))) \<noteq> board afterE4E5
   \<and> sideToMove (snd (undoBtn_click (play afterE4E5 (Move (7, 1) (6, 3))))) \<noteq> sideToMove afterE4E5"
  by code_simp

section \<open>Move ordering\<close>

lemma captureCmp_le: "captureCmp b x y \<le> 0 \<longleftrightarrow> (isCapture b y \<longrightarrow> isCapture b x)"
  by (simp add: captureCmp_def isCapture_def Let_def)

lemma insertBy_capture: "isCapture b x \<Longrightarrow> insertBy (captureCmp b) x zs = x # zs"
  by (cases zs) (simp_all add: captureCmp_le)

lemma insertBy_quiet:
  "\<not> isCapture b x \<Longrightarrow> \<forall>y \<in> set cs. isCapture b y \<Longrightarrow> \<forall>y \<in> set ns. \<not> isCapture b y \<Longrightarrow>
   insertBy (captureCmp b) x (cs @ ns) = cs @ x # ns"
proof (induction cs)
  case Nil
  then show ?case by (cases ns) (simp_all add: captureCmp_le)
next
  case (Cons c cs)
  then show ?case by (simp add: captureCmp_le)
qed

lemma arraySort_captures:
  "arraySort (captureCmp b) xs = filter (isCapture b) xs @ filter (\<lambda>m. \<not> isCapture b m) xs"
proof (induction xs)
  case Nil
  show ?case by (simp add: arraySort_def)
next
  case (Cons x xs)
  have step: "arraySort (captureCmp b) (x # xs) = insertBy (captureCmp b) x (arraySort (captureCmp b) xs)"
    by (simp add: arraySort_def)
  show ?case
  proof (cases "isCapture b x")
    case True
    then show ?thesis by (simp add: step Cons.IH insertBy_capture)
  next
    case False
    then show ?thesis by (simp add: step Cons.IH insertBy_quiet)
  qed
qed

text \<open>
  C6, as the code has it.  At the root the moves are iterated with all captures before all
  other moves, each group in generator order; \<open>minimax\<close> iterates the moves as the generator
  returned them.
\<close>

theorem root_order_captures_first:
  "rootMoves b side =
     filter (isCapture b) (generateMovesForSide b side)
     @ filter (\<lambda>m. \<not> isCapture b m) (generateMovesForSide b side)
   \<and> capturesFirst b (rootMoves b side)
   \<and> nodeMoves b side = generateMovesForSide b side"
  by (simp add: rootMoves_def nodeMoves_def arraySort_captures capturesFirst_def)

text \<open>
  C6 as stated fails: after 1. e2-e4 d7-d5 2. Nb1-c3 the moves that \<open>minimax\<close> iterates for
  black start with knight moves to empty squares and contain the capture d5xe4 last.
\<close>

theorem node_order_counterexample:
  "\<not> capturesFirst (board afterE4D5Nc3) (nodeMoves (board afterE4D5Nc3) (CHR ''b''))"
  by code_simp

section \<open>Pruning does not change the result\<close>

text \<open>
  The search with windows is related to the search without them as usual for fail-soft
  alpha-beta: in a window from \<open>a\<close> to \<open>b\<close> with \<open>a < b\<close> the result is the value of the
  node when it lies inside the window, and a bound of it on the side where it falls
  outside.  The clock is taken never to pass the budget.
\<close>

lemma NegInf_least [simp]: "NegInf \<le> (x::jsnum)" by (cases x) simp_all
lemma PosInf_greatest [simp]: "(x::jsnum) \<le> PosInf" by (cases x) simp_all
lemma max_NegInf [simp]: "max x NegInf = x" "max NegInf x = x"
  by (simp_all add: max_def antisym)
lemma min_PosInf [simp]: "min x PosInf = x" "min PosInf x = x"
  by (simp_all add: min_def antisym)
lemma NegInf_less_PosInf: "NegInf < PosInf" by (simp add: less_jsnum_def)

lemma inWindow_full: "inWindow NegInf PosInf v r \<Longrightarrow> r = v"
  unfolding inWindow_def
  by (cases r; cases v) (auto simp: less_jsnum_def)

lemma foldl_max_init:
  "foldl (\<lambda>m x. max m (f x)) (e::jsnum) xs = max e (foldl (\<lambda>m x. max m (f x)) NegInf xs)"
proof (induction xs arbitrary: e)
  case Nil show ?case by simp
next
  case (Cons x xs)
  show ?case by (simp add: Cons.IH[of "max e (f x)"] Cons.IH[of "f x"] max.assoc)
qed

lemma foldl_min_init:
  "foldl (\<lambda>m x. min m (f x)) (e::jsnum) xs = min e (foldl (\<lambda>m x. min m (f x)) PosInf xs)"
proof (induction xs arbitrary: e)
  case Nil show ?case by simp
next
  case (Cons x xs)
  show ?case by (simp add: Cons.IH[of "min e (f x)"] Cons.IH[of "f x"] min.assoc)
qed

lemma maxLoop_ge: "e \<le> fst (maxLoop clk st lim child bd mvs e a b n)"
proof (induction mvs arbitrary: e a n)
  case Nil show ?case by simp
next
  case (Cons mv mvs)
  show ?case
    apply (simp add: Let_def split: prod.splits)
    apply (intro conjI impI allI)
    apply (rule order_trans[OF _ Cons.IH]) 
    apply simp
    done
qed

lemma minLoop_le: "fst (minLoop clk st lim child bd mvs e a b n) \<le> e"
proof (induction mvs arbitrary: e b n)
  case Nil show ?case by simp
next
  case (Cons mv mvs)
  show ?case
    apply (simp add: Let_def split: prod.splits)
    apply (intro conjI impI allI)
    apply (rule order_trans[OF Cons.IH]) 
    apply simp
    done
qed

lemma window_step_max:
  fixes a0 b e ev fv M v :: "jsnum"
  assumes w1: "inWindow (max a0 e) b fv ev" and lt: "max (max a0 e) ev < b"
    and w2: "inWindow a0 b (max (max e ev) M) v" and ge: "max e ev \<le> v"
  shows "inWindow a0 b (max (max e fv) M) v"
proof (cases "max a0 e < ev")
  case True
  with w1 lt have "ev = fv" by (simp add: inWindow_def)
  with w2 show ?thesis by simp
next
  case False
  then have "ev \<le> max a0 e" by (simp only: not_less)
  with w1 have f: "fv \<le> ev" unfolding inWindow_def by blast
  from False have ev: "ev \<le> a0 \<or> ev \<le> e" by (simp add: not_less le_max_iff_disj)
  from ge have ev': "e \<le> v" "ev \<le> v" by simp_all
  from lt have l: "a0 < b" "e < b" "ev < b" by simp_all
  show ?thesis
    unfolding inWindow_def
  proof (intro conjI impI)
    assume "v \<le> a0"
    with w2 have "max (max e ev) M \<le> v" by (simp add: inWindow_def)
    with f show "max (max e fv) M \<le> v" by (simp add: le_max_iff_disj) (meson order_trans)
  next
    assume "a0 < v \<and> v < b"
    with w2 have eq: "v = max (max e ev) M" by (simp add: inWindow_def)
    show "v = max (max e fv) M"
    proof (cases "ev \<le> e")
      case True
      with f have "fv \<le> e" by (rule order_trans)
      with True have "max e fv = e" "max e ev = e" by (simp_all add: max_absorb1)
      with eq show ?thesis by simp
    next
      case False
      with ev have "ev \<le> a0" by simp
      moreover from \<open>a0 < v \<and> v < b\<close> have "a0 < v" by simp
      ultimately have "ev < v" by (rule le_less_trans)
      moreover from False have "e < ev" by simp
      ultimately have "v = M" "e < M" "ev < M" using eq by (auto simp: max_def split: if_splits)
      moreover from f \<open>ev < M\<close> have "fv < M" by (rule le_less_trans)
      ultimately show ?thesis by (auto simp: max_def)
    qed
  next
    assume bv: "b \<le> v"
    with w2 have le: "v \<le> max (max e ev) M" by (simp add: inWindow_def)
    from l(2) bv have "e < v" by (rule less_le_trans)
    moreover from l(3) bv have "ev < v" by (rule less_le_trans)
    ultimately have "e < v" "ev < v" .
    with le have "v \<le> M" by (auto simp: max_def split: if_splits)
    then show "v \<le> max (max e fv) M" by (simp add: le_max_iff_disj)
  qed
qed

lemma window_step_min:
  fixes a b0 e ev fv M v :: "jsnum"
  assumes w1: "inWindow a (min b0 e) fv ev" and lt: "a < min (min b0 e) ev"
    and w2: "inWindow a b0 (min (min e ev) M) v" and ge: "v \<le> min e ev"
  shows "inWindow a b0 (min (min e fv) M) v"
proof (cases "ev < min b0 e")
  case True
  with w1 lt have "ev = fv" by (simp add: inWindow_def)
  with w2 show ?thesis by simp
next
  case False
  then have "min b0 e \<le> ev" by (simp only: not_less)
  with w1 have f: "ev \<le> fv" unfolding inWindow_def by blast
  from False have ev: "b0 \<le> ev \<or> e \<le> ev" by (simp add: not_less min_le_iff_disj)
  from ge have ev': "v \<le> e" "v \<le> ev" by simp_all
  from lt have l: "a < b0" "a < e" "a < ev" by simp_all
  show ?thesis
    unfolding inWindow_def
  proof (intro conjI impI)
    assume va: "v \<le> a"
    with w2 have le: "min (min e ev) M \<le> v" by (simp add: inWindow_def)
    from va l(2) have "v < e" by (rule le_less_trans)
    moreover from va l(3) have "v < ev" by (rule le_less_trans)
    ultimately have "M \<le> v" using le by (auto simp: min_def split: if_splits)
    then show "min (min e fv) M \<le> v" by (simp add: min_le_iff_disj)
  next
    assume av: "a < v \<and> v < b0"
    with w2 have eq: "v = min (min e ev) M" by (simp add: inWindow_def)
    show "v = min (min e fv) M"
    proof (cases "e \<le> ev")
      case True
      then have "e \<le> fv" using f by (rule order_trans)
      with True have "min e fv = e" "min e ev = e" by (simp_all add: min_absorb1)
      with eq show ?thesis by simp
    next
      case False
      with ev have "b0 \<le> ev" by simp
      moreover from av have "v < b0" by simp
      ultimately have "v < ev" by (rule less_le_trans[rotated])
      moreover from False have "ev < e" by simp
      ultimately have "v = M" "M < e" "M < ev" using eq by (auto simp: min_def split: if_splits)
      moreover from \<open>M < ev\<close> f have "M < fv" by (rule less_le_trans)
      ultimately show ?thesis by (auto simp: min_def)
    qed
  next
    assume "b0 \<le> v"
    with w2 have le: "v \<le> min (min e ev) M" by (simp add: inWindow_def)
    from ev'(2) f have "v \<le> fv" by (rule order_trans)
    with le ev'(1) show "v \<le> min (min e fv) M" by simp
  qed
qed

lemma inWindow_refl: "inWindow a b v v"
  by (simp add: inWindow_def)

lemma maxLoop_window:
  assumes nt: "\<And>k. \<not> timeUp clk st lim k"
  shows "(\<And>mv a b k. mv \<in> set mvs \<Longrightarrow> a < b \<Longrightarrow>
            inWindow a b (f mv) (fst (child (makeMoveOnBoard bd mv) a b k))) \<Longrightarrow>
         max a0 e < b \<Longrightarrow>
         inWindow a0 b (foldl (\<lambda>m mv. max m (f mv)) e mvs)
           (fst (maxLoop clk st lim child bd mvs e (max a0 e) b n))"
proof (induction mvs arbitrary: e n)
  case Nil
  show ?case by (simp add: inWindow_refl)
next
  case (Cons mv mvs)
  let ?g = "\<lambda>m mv. max m (f mv)"
  let ?M = "foldl ?g NegInf mvs"
  obtain ev n1 where c: "child (makeMoveOnBoard bd mv) (max a0 e) b n = (ev, n1)"
    by (cases "child (makeMoveOnBoard bd mv) (max a0 e) b n")
  have cw: "inWindow (max a0 e) b (f mv) ev"
    using Cons.prems(1)[of mv "max a0 e" b n] Cons.prems(2) c by simp
  have T: "foldl ?g e (mv # mvs) = max (max e (f mv)) ?M"
    using foldl_max_init[of f "max e (f mv)" mvs] by simp
  show ?case
  proof (cases "b \<le> max (max a0 e) ev")
    case True
    with Cons.prems(2) have bev: "b \<le> ev" by (auto simp: max_def split: if_splits)
    with cw have "ev \<le> f mv" by (simp add: inWindow_def)
    moreover have "max e ev = ev" using bev Cons.prems(2) by (auto simp: max_def split: if_splits)
    moreover have "a0 < ev" using bev Cons.prems(2) by (auto simp: max_def split: if_splits)
    ultimately have "inWindow a0 b (max (max e (f mv)) ?M) (max e ev)"
      using bev by (auto simp: inWindow_def max_def split: if_splits)
    then show ?thesis using True c by (simp add: T del: foldl.simps)
  next
    case False
    then have lt: "max a0 (max e ev) < b" by (simp add: max.assoc not_le)
    let ?v = "fst (maxLoop clk st lim child bd mvs (max e ev) (max a0 (max e ev)) b (Suc n1))"
    have ih: "inWindow a0 b (foldl ?g (max e ev) mvs) ?v"
      using Cons.IH[OF _ lt] Cons.prems(1) by simp
    then have ih': "inWindow a0 b (max (max e ev) ?M) ?v"
      using foldl_max_init[of f "max e ev" mvs] by simp
    have ge: "max e ev \<le> ?v" by (rule maxLoop_ge)
    have lt2: "max (max a0 e) ev < b" using False by (simp only: not_le)
    have "inWindow a0 b (max (max e (f mv)) ?M) ?v"
      by (rule window_step_max[OF cw lt2 ih' ge])
    then show ?thesis using False c nt by (simp add: T max.assoc Let_def del: foldl.simps)
  qed
qed

lemma minLoop_window:
  assumes nt: "\<And>k. \<not> timeUp clk st lim k"
  shows "(\<And>mv a b k. mv \<in> set mvs \<Longrightarrow> a < b \<Longrightarrow>
            inWindow a b (f mv) (fst (child (makeMoveOnBoard bd mv) a b k))) \<Longrightarrow>
         a < min b0 e \<Longrightarrow>
         inWindow a b0 (foldl (\<lambda>m mv. min m (f mv)) e mvs)
           (fst (minLoop clk st lim child bd mvs e a (min b0 e) n))"
proof (induction mvs arbitrary: e n)
  case Nil
  show ?case by (simp add: inWindow_refl)
next
  case (Cons mv mvs)
  let ?g = "\<lambda>m mv. min m (f mv)"
  let ?M = "foldl ?g PosInf mvs"
  obtain ev n1 where c: "child (makeMoveOnBoard bd mv) a (min b0 e) n = (ev, n1)"
    by (cases "child (makeMoveOnBoard bd mv) a (min b0 e) n")
  have cw: "inWindow a (min b0 e) (f mv) ev"
    using Cons.prems(1)[of mv a "min b0 e" n] Cons.prems(2) c by simp
  have T: "foldl ?g e (mv # mvs) = min (min e (f mv)) ?M"
    using foldl_min_init[of f "min e (f mv)" mvs] by simp
  show ?case
  proof (cases "min (min b0 e) ev \<le> a")
    case True
    with Cons.prems(2) have bev: "ev \<le> a" by (auto simp: min_def split: if_splits)
    with cw have "f mv \<le> ev" by (simp add: inWindow_def)
    moreover have "min e ev = ev" using bev Cons.prems(2) by (auto simp: min_def split: if_splits)
    moreover have "ev < b0" using bev Cons.prems(2) by (auto simp: min_def split: if_splits)
    ultimately have "inWindow a b0 (min (min e (f mv)) ?M) (min e ev)"
      using bev by (auto simp: inWindow_def min_def split: if_splits)
    then show ?thesis using True c by (simp add: T del: foldl.simps)
  next
    case False
    then have lt: "a < min b0 (min e ev)" by (simp add: min.assoc not_le)
    let ?v = "fst (minLoop clk st lim child bd mvs (min e ev) a (min b0 (min e ev)) (Suc n1))"
    have ih: "inWindow a b0 (foldl ?g (min e ev) mvs) ?v"
      using Cons.IH[OF _ lt] Cons.prems(1) by simp
    then have ih': "inWindow a b0 (min (min e ev) ?M) ?v"
      using foldl_min_init[of f "min e ev" mvs] by simp
    have ge: "?v \<le> min e ev" by (rule minLoop_le)
    have lt2: "a < min (min b0 e) ev" using False by (simp only: not_le)
    have "inWindow a b0 (min (min e (f mv)) ?M) ?v"
      by (rule window_step_min[OF cw lt2 ih' ge])
    then show ?thesis using False c nt by (simp add: T min.assoc Let_def del: foldl.simps)
  qed
qed

lemma minimax_window:
  assumes nt: "\<And>k. \<not> timeUp clk st lim k"
  shows "a < b \<Longrightarrow>
         inWindow a b (minimaxNoPrune bd d side) (fst (minimax clk bd d side a b st lim n))"
proof (induction d arbitrary: bd side a b n)
  case 0
  show ?case by (simp add: inWindow_refl)
next
  case (Suc d)
  show ?case
  proof (cases "nodeMoves bd side = []")
    case True
    then show ?thesis by (simp add: inWindow_refl)
  next
    case False
    show ?thesis
    proof (cases "side = CHR ''w''")
      case True
      have "inWindow a b
              (foldl (\<lambda>m mv. max m (minimaxNoPrune (makeMoveOnBoard bd mv) d (CHR ''b''))) NegInf
                 (nodeMoves bd side))
              (fst (maxLoop clk st lim (\<lambda>nb a b k. minimax clk nb d (CHR ''b'') a b st lim k)
                      bd (nodeMoves bd side) NegInf (max a NegInf) b (Suc n)))"
        by (rule maxLoop_window[OF nt]) (use Suc in simp_all)
      then show ?thesis using False True nt by (simp add: Let_def)
    next
      case black: False
      have "inWindow a b
              (foldl (\<lambda>m mv. min m (minimaxNoPrune (makeMoveOnBoard bd mv) d (CHR ''w''))) PosInf
                 (nodeMoves bd side))
              (fst (minLoop clk st lim (\<lambda>nb a b k. minimax clk nb d (CHR ''w'') a b st lim k)
                      bd (nodeMoves bd side) PosInf a (min b PosInf) (Suc n)))"
        by (rule minLoop_window[OF nt]) (use Suc in simp_all)
      then show ?thesis using False black nt by (simp add: Let_def)
    qed
  qed
qed

lemma minimax_full_window:
  assumes nt: "\<And>k. \<not> timeUp clk st lim k"
  shows "fst (minimax clk bd d side NegInf PosInf st lim n) = minimaxNoPrune bd d side"
  by (rule inWindow_full[OF minimax_window[OF nt NegInf_less_PosInf]])

lemma rootLoop_no_prune:
  assumes nt: "\<And>k. \<not> timeUp clk st lim k"
  shows "(fst (rootLoop clk st lim bd d side mvs bm bs n),
          fst (snd (rootLoop clk st lim bd d side mvs bm bs n)))
         = rootLoopNoPrune bd d side mvs bm bs"
proof (induction mvs arbitrary: bm bs n)
  case Nil
  show ?case by simp
next
  case (Cons mv mvs)
  let ?o = "if side = CHR ''w'' then CHR ''b'' else CHR ''w''"
  obtain n1 where c: "minimax clk (makeMoveOnBoard bd mv) d ?o NegInf PosInf st lim n
           = (minimaxNoPrune (makeMoveOnBoard bd mv) d ?o, n1)"
    using minimax_full_window[OF nt, of "makeMoveOnBoard bd mv" d ?o n]
    by (metis prod.collapse)
  show ?case
  proof (cases "side = CHR ''w''")
    case True
    show ?thesis
      using c nt Cons.IH unfolding True by (simp add: Let_def)
  next
    case False
    show ?thesis
      using c nt False by (simp add: Let_def Cons.IH)
  qed
qed

text \<open>
  C1.  When no clock reading passes the time budget, for every board, side and depth of at
  least one (so also for every depth up to 3), the move and the score found by
  \<open>minimaxRoot\<close> with the alpha-beta recursion are those of the same search with the
  recursion run without windows and without the break.
\<close>

theorem pruning_equivalence:
  assumes "\<forall>k. clk k - clk n \<le> timeLimitMs" and "0 < depth"
  shows "(fst (minimaxRootSearch clk bd depth side timeLimitMs n),
          fst (snd (minimaxRootSearch clk bd depth side timeLimitMs n)))
         = minimaxRootNoPrune bd depth side
       \<and> minimaxRoot clk bd depth side timeLimitMs n = fst (minimaxRootNoPrune bd depth side)"
proof -
  from assms(2) obtain d where d: "depth = Suc d" by (cases depth) auto
  have nt: "\<And>k. \<not> timeUp clk (clk n) timeLimitMs k"
    using assms(1) by (simp add: timeUp_def not_less)
  have "(fst (minimaxRootSearch clk bd depth side timeLimitMs n),
          fst (snd (minimaxRootSearch clk bd depth side timeLimitMs n)))
         = minimaxRootNoPrune bd depth side"
    unfolding d using rootLoop_no_prune[OF nt] by (simp add: Let_def)
  then show ?thesis by (simp add: minimaxRoot_def) (metis fst_conv)
qed

theorem pruning_equivalence_witness:
  "(\<forall>k. (\<lambda>_. 0 :: int) k - (\<lambda>_. 0) (0 :: nat) \<le> 2000) \<and> (0 :: nat) < 3
   \<and> minimaxRootSearch (\<lambda>_. 0) kpBoard 3 (CHR ''b'') 2000 0
       = (Some (Move (3, 3) (4, 4)), Fin (- 100), 233)
   \<and> minimaxRootNoPrune kpBoard 3 (CHR ''b'') = (Some (Move (3, 3) (4, 4)), Fin (- 100))
   \<and> minimaxRoot (\<lambda>_. 0) kpBoard 3 (CHR ''b'') 2000 0 = Some (Move (3, 3) (4, 4))"
proof -
  have v: "minimaxRootSearch (\<lambda>_. 0) kpBoard 3 (CHR ''b'') 2000 0
           = (Some (Move (3, 3) (4, 4)), Fin (- 100), 233)"
    by code_simp
  have h: "\<forall>k. (\<lambda>_. 0 :: int) k - (\<lambda>_. 0) (0 :: nat) \<le> 2000" by simp
  have d: "(0 :: nat) < 3" by simp
  have "(fst (minimaxRootSearch (\<lambda>_. 0) kpBoard 3 (CHR ''b'') 2000 0),
         fst (snd (minimaxRootSearch (\<lambda>_. 0) kpBoard 3 (CHR ''b'') 2000 0)))
        = minimaxRootNoPrune kpBoard 3 (CHR ''b'')"
    using pruning_equivalence[of "\<lambda>_. 0" 0 2000 3 kpBoard "CHR ''b''"] h d by blast
  then have "minimaxRootNoPrune kpBoard 3 (CHR ''b'') = (Some (Move (3, 3) (4, 4)), Fin (- 100))"
    by (simp only: v fst_conv snd_conv)
  with v h d show ?thesis by (simp only: minimaxRoot_def fst_conv simp_thms)
qed

section \<open>The search leaves the board of its caller alone\<close>

text \<open>
  On the store, \<open>makeMoveOnBoard\<close> writes only into the rows it has just allocated, and
  the search on the store computes what the search on board values computes.
\<close>

lemma keeps_refl: "keeps h h"
  by (simp add: keeps_def)

lemma keeps_append: "keeps h (h @ xs)"
  by (simp add: keeps_def)

lemma keeps_trans: "keeps h h1 \<Longrightarrow> keeps h1 h2 \<Longrightarrow> keeps h h2"
proof -
  assume a: "keeps h h1" and b: "keeps h1 h2"
  have "take (length h) h2 = take (length h) (take (length h1) h2)"
    using a by (simp add: keeps_def min_def)
  also have "\<dots> = h" using a b by (simp add: keeps_def)
  finally show ?thesis using a b by (simp add: keeps_def)
qed

lemma keeps_nth: "keeps h h' \<Longrightarrow> a < length h \<Longrightarrow> h' ! a = h ! a"
  unfolding keeps_def by (metis nth_take)

lemma deref_keeps: "keeps h h' \<Longrightarrow> \<forall>a \<in> set b. a < length h \<Longrightarrow> deref h' b = deref h b"
  by (simp add: deref_def keeps_nth)

lemma validRef_keeps: "validRef h b \<Longrightarrow> keeps h h' \<Longrightarrow> validRef h' b \<and> deref h' b = deref h b"
  unfolding validRef_def using deref_keeps[of h h' b]
  by (auto simp: keeps_def)

lemma cloneBoardH_spec:
  "\<forall>a \<in> set b. a < length h \<Longrightarrow>
   fst (cloneBoardH h b) = h @ deref h b
   \<and> length (snd (cloneBoardH h b)) = length b
   \<and> (\<forall>i < length b. snd (cloneBoardH h b) ! i = length h + i)"
proof (induction b arbitrary: h)
  case Nil
  show ?case by (simp add: deref_def)
next
  case (Cons a as)
  let ?h1 = "h @ [h ! a]"
  have 1: "\<forall>x \<in> set as. x < length ?h1" using Cons.prems by auto
  have 2: "deref ?h1 as = deref h as"
    using Cons.prems by (simp add: deref_def nth_append)
  note ih = Cons.IH[OF 1]
  have s: "cloneBoardH h (a # as) = (fst (cloneBoardH ?h1 as), length h # snd (cloneBoardH ?h1 as))"
    by (simp add: Let_def split: prod.splits)
  have 3: "deref h (a # as) = h ! a # deref h as" by (simp add: deref_def)
  show ?case
    unfolding s 3 using ih[unfolded 2] by (auto simp: nth_Cons split: nat.splits)
qed

lemma deref_fresh:
  "length nb = length rows \<Longrightarrow> \<forall>i < length rows. nb ! i = length h + i \<Longrightarrow>
   deref (h @ rows) nb = rows"
  by (simp add: deref_def list_eq_iff_nth_eq nth_append)

lemma readH_fresh:
  "\<forall>i < length rows. nb ! i = length h + i \<Longrightarrow> nat r < length rows \<Longrightarrow>
   readH (h @ rows) nb r c = rows ! nat r ! nat c"
  by (simp add: readH_def nth_append)

lemma writeH_fresh:
  "\<forall>i < length rows. nb ! i = length h + i \<Longrightarrow> nat r < length rows \<Longrightarrow>
   writeH (h @ rows) nb r c v = h @ setCell rows r c v"
  by (simp add: writeH_def setCell_def nth_append list_update_append)

lemma length_setCell [simp]: "length (setCell b r c v) = length b"
  by (simp add: setCell_def)

lemma wf_setCell: "wf_board b \<Longrightarrow> wf_board (setCell b r c v)"
proof (cases "nat r < length b")
  case True
  assume wf: "wf_board b"
  have "set (b[nat r := (b ! nat r)[nat c := v]]) \<subseteq> insert ((b ! nat r)[nat c := v]) (set b)"
    by (rule set_update_subset_insert)
  moreover have "length ((b ! nat r)[nat c := v]) = 8"
    using wf True by (simp add: wf_board_def)
  ultimately show ?thesis using wf by (auto simp: wf_board_def setCell_def)
next
  case False
  assume "wf_board b"
  with False show ?thesis by (simp add: setCell_def list_update_beyond not_less)
qed

lemma wf_makeMoveOnBoard: "wf_board b \<Longrightarrow> wf_board (makeMoveOnBoard b mv)"
  by (simp add: makeMoveOnBoard_def cloneBoard_def Let_def wf_setCell split: prod.splits)

lemma makeMoveOnBoardH_spec:
  assumes v: "validRef h b"
    and r: "inRange (fst (from_sq mv))" "inRange (fst (to_sq mv))"
  shows "fst (makeMoveOnBoardH h b mv) = h @ makeMoveOnBoard (deref h b) mv
       \<and> validRef (fst (makeMoveOnBoardH h b mv)) (snd (makeMoveOnBoardH h b mv))
       \<and> deref (fst (makeMoveOnBoardH h b mv)) (snd (makeMoveOnBoardH h b mv))
           = makeMoveOnBoard (deref h b) mv"
proof -
  obtain fr fc tr tc where mv: "mv = Move (fr, fc) (tr, tc)" by (cases mv) auto
  let ?rows = "deref h b"
  obtain h1 nb where cl: "cloneBoardH h b = (h1, nb)" by (cases "cloneBoardH h b")
  have len: "length ?rows = 8" "length b = 8" and wf: "wf_board ?rows"
    using v by (simp_all add: validRef_def wf_board_def deref_def)
  from cloneBoardH_spec[of b h] v cl len
  have h1: "h1 = h @ ?rows" and nbl: "length nb = 8"
    and nb: "\<forall>i < length ?rows. nb ! i = length h + i"
    by (simp_all add: validRef_def)
  have fr: "nat fr < length ?rows" and tr: "nat tr < length ?rows"
    using r len by (auto simp: mv inRange_def)
  let ?r1 = "setCell ?rows tr tc (?rows ! nat fr ! nat fc)"
  have nb1: "\<forall>i < length ?r1. nb ! i = length h + i" using nb by simp
  have fr1: "nat fr < length ?r1" using fr by simp
  have res: "makeMoveOnBoardH h b mv = (h @ setCell ?r1 fr fc (CHR ''.''), nb)"
    unfolding makeMoveOnBoardH_def cl mv h1
    by (simp add: Let_def readH_fresh[OF nb fr] writeH_fresh[OF nb tr] writeH_fresh[OF nb1 fr1])
  have mm: "makeMoveOnBoard ?rows mv = setCell ?r1 fr fc (CHR ''.'')"
    by (simp add: makeMoveOnBoard_def cloneBoard_def sq_def mv Let_def)
  have wf': "wf_board (makeMoveOnBoard ?rows mv)" by (rule wf_makeMoveOnBoard[OF wf])
  have l': "length (makeMoveOnBoard ?rows mv) = 8" using wf' by (simp add: wf_board_def)
  have d: "deref (h @ makeMoveOnBoard ?rows mv) nb = makeMoveOnBoard ?rows mv"
    by (rule deref_fresh) (use nb nbl l' len in simp_all)
  have "\<forall>a \<in> set nb. a < length (h @ makeMoveOnBoard ?rows mv)"
  proof
    fix a assume "a \<in> set nb"
    then obtain i where "i < length nb" "nb ! i = a" by (auto simp: in_set_conv_nth)
    with nb nbl len l' show "a < length (h @ makeMoveOnBoard ?rows mv)" by auto
  qed
  with d wf' have "validRef (h @ makeMoveOnBoard ?rows mv) nb" by (simp add: validRef_def)
  with d show ?thesis by (simp add: res mm[symmetric])
qed

lemma maxLoopH_spec:
  assumes child: "\<And>h nb a b k. validRef h nb \<Longrightarrow>
            keeps h (snd (snd (child h nb a b k)))
            \<and> (fst (child h nb a b k), fst (snd (child h nb a b k))) = childV (deref h nb) a b k"
  shows "validRef h b \<Longrightarrow>
         \<forall>mv \<in> set mvs. inRange (fst (from_sq mv)) \<and> inRange (fst (to_sq mv)) \<Longrightarrow>
         keeps h (snd (snd (maxLoopH clk st lim child h b mvs e a be n)))
         \<and> (fst (maxLoopH clk st lim child h b mvs e a be n),
             fst (snd (maxLoopH clk st lim child h b mvs e a be n)))
           = maxLoop clk st lim childV (deref h b) mvs e a be n"
proof (induction mvs arbitrary: h e a n)
  case Nil
  show ?case by (simp add: keeps_refl)
next
  case (Cons mv mvs)
  obtain h1 nb where mk: "makeMoveOnBoardH h b mv = (h1, nb)" by (cases "makeMoveOnBoardH h b mv")
  from makeMoveOnBoardH_spec[OF Cons.prems(1), of mv] Cons.prems(2) mk
  have h1: "h1 = h @ makeMoveOnBoard (deref h b) mv" and v1: "validRef h1 nb"
    and d1: "deref h1 nb = makeMoveOnBoard (deref h b) mv"
    by auto
  obtain ev n1 h2 where ch: "child h1 nb a be n = (ev, n1, h2)" by (cases "child h1 nb a be n")
  from child[OF v1, of a be n] ch d1
  have k12: "keeps h1 h2" and cv: "childV (makeMoveOnBoard (deref h b) mv) a be n = (ev, n1)"
    by simp_all
  have "keeps h h1" unfolding h1 by (rule keeps_append)
  then have k02: "keeps h h2" using k12 by (rule keeps_trans)
  from validRef_keeps[OF Cons.prems(1) k02]
  have v2: "validRef h2 b" and d2: "deref h2 b = deref h b" by simp_all
  have rest: "\<forall>mv \<in> set mvs. inRange (fst (from_sq mv)) \<and> inRange (fst (to_sq mv))"
    using Cons.prems(2) by simp
  note ih = Cons.IH[OF v2 rest, of "max e ev" "max a ev" "Suc n1", unfolded d2]
  have k: "keeps h (snd (snd (maxLoopH clk st lim child h2 b mvs (max e ev) (max a ev) be (Suc n1))))"
    using keeps_trans[OF k02] ih by simp
  show ?case
    using k02 k ih by (simp add: mk ch cv Let_def)
qed

lemma minLoopH_spec:
  assumes child: "\<And>h nb a b k. validRef h nb \<Longrightarrow>
            keeps h (snd (snd (child h nb a b k)))
            \<and> (fst (child h nb a b k), fst (snd (child h nb a b k))) = childV (deref h nb) a b k"
  shows "validRef h b \<Longrightarrow>
         \<forall>mv \<in> set mvs. inRange (fst (from_sq mv)) \<and> inRange (fst (to_sq mv)) \<Longrightarrow>
         keeps h (snd (snd (minLoopH clk st lim child h b mvs e a be n)))
         \<and> (fst (minLoopH clk st lim child h b mvs e a be n),
             fst (snd (minLoopH clk st lim child h b mvs e a be n)))
           = minLoop clk st lim childV (deref h b) mvs e a be n"
proof (induction mvs arbitrary: h e be n)
  case Nil
  show ?case by (simp add: keeps_refl)
next
  case (Cons mv mvs)
  obtain h1 nb where mk: "makeMoveOnBoardH h b mv = (h1, nb)" by (cases "makeMoveOnBoardH h b mv")
  from makeMoveOnBoardH_spec[OF Cons.prems(1), of mv] Cons.prems(2) mk
  have h1: "h1 = h @ makeMoveOnBoard (deref h b) mv" and v1: "validRef h1 nb"
    and d1: "deref h1 nb = makeMoveOnBoard (deref h b) mv"
    by auto
  obtain ev n1 h2 where ch: "child h1 nb a be n = (ev, n1, h2)" by (cases "child h1 nb a be n")
  from child[OF v1, of a be n] ch d1
  have k12: "keeps h1 h2" and cv: "childV (makeMoveOnBoard (deref h b) mv) a be n = (ev, n1)"
    by simp_all
  have "keeps h h1" unfolding h1 by (rule keeps_append)
  then have k02: "keeps h h2" using k12 by (rule keeps_trans)
  from validRef_keeps[OF Cons.prems(1) k02]
  have v2: "validRef h2 b" and d2: "deref h2 b = deref h b" by simp_all
  have rest: "\<forall>mv \<in> set mvs. inRange (fst (from_sq mv)) \<and> inRange (fst (to_sq mv))"
    using Cons.prems(2) by simp
  note ih = Cons.IH[OF v2 rest, of "min e ev" "min be ev" "Suc n1", unfolded d2]
  have k: "keeps h (snd (snd (minLoopH clk st lim child h2 b mvs (min e ev) a (min be ev) (Suc n1))))"
    using keeps_trans[OF k02] ih by simp
  show ?case
    using k02 k ih by (simp add: mk ch cv Let_def)
qed

lemma nodeMoves_in_range:
  "\<forall>mv \<in> set (nodeMoves bd side). inRange (fst (from_sq mv)) \<and> inRange (fst (to_sq mv))"
  using generated_in_range by (auto simp: nodeMoves_def)

lemma rootMoves_in_range:
  "\<forall>mv \<in> set (rootMoves bd side). inRange (fst (from_sq mv)) \<and> inRange (fst (to_sq mv))"
  using generated_in_range by (auto simp: rootMoves_def arraySort_captures)

lemma minimaxH_spec:
  "validRef h b \<Longrightarrow>
     keeps h (snd (snd (minimaxH clk h b d side a be st lim n)))
     \<and> (fst (minimaxH clk h b d side a be st lim n), fst (snd (minimaxH clk h b d side a be st lim n)))
       = minimax clk (deref h b) d side a be st lim n"
proof (induction d arbitrary: h b side a be n)
  case 0
  show ?case by (simp add: keeps_refl)
next
  case (Suc d)
  show ?case
  proof (cases "timeUp clk st lim n \<or> nodeMoves (deref h b) side = []")
    case True
    then show ?thesis by (auto simp: keeps_refl)
  next
    case False
    show ?thesis
    proof (cases "side = CHR ''w''")
      case True
      from maxLoopH_spec[where child="\<lambda>h' nb a b k. minimaxH clk h' nb d (CHR ''b'') a b st lim k"
          and childV="\<lambda>nb a b k. minimax clk nb d (CHR ''b'') a b st lim k",
          OF Suc.IH Suc.prems nodeMoves_in_range]
      show ?thesis using False True by (simp add: Let_def)
    next
      case black: False
      from minLoopH_spec[where child="\<lambda>h' nb a b k. minimaxH clk h' nb d (CHR ''w'') a b st lim k"
          and childV="\<lambda>nb a b k. minimax clk nb d (CHR ''w'') a b st lim k",
          OF Suc.IH Suc.prems nodeMoves_in_range]
      show ?thesis using False black by (simp add: Let_def)
    qed
  qed
qed

lemma rootLoopH_spec:
  "validRef h b \<Longrightarrow>
   \<forall>mv \<in> set mvs. inRange (fst (from_sq mv)) \<and> inRange (fst (to_sq mv)) \<Longrightarrow>
   keeps h (snd (snd (snd (rootLoopH clk st lim h b d side mvs bm bs n))))
   \<and> (fst (rootLoopH clk st lim h b d side mvs bm bs n),
       fst (snd (rootLoopH clk st lim h b d side mvs bm bs n)),
       fst (snd (snd (rootLoopH clk st lim h b d side mvs bm bs n))))
     = rootLoop clk st lim (deref h b) d side mvs bm bs n"
proof (induction mvs arbitrary: h bm bs n)
  case Nil
  show ?case by (simp add: keeps_refl)
next
  case (Cons mv mvs)
  let ?o = "if side = CHR ''w'' then CHR ''b'' else CHR ''w''"
  obtain h1 nb where mk: "makeMoveOnBoardH h b mv = (h1, nb)" by (cases "makeMoveOnBoardH h b mv")
  from makeMoveOnBoardH_spec[OF Cons.prems(1), of mv] Cons.prems(2) mk
  have h1: "h1 = h @ makeMoveOnBoard (deref h b) mv" and v1: "validRef h1 nb"
    and d1: "deref h1 nb = makeMoveOnBoard (deref h b) mv"
    by auto
  obtain sc n1 h2 where ch: "minimaxH clk h1 nb d ?o NegInf PosInf st lim n = (sc, n1, h2)"
    by (cases "minimaxH clk h1 nb d ?o NegInf PosInf st lim n")
  from minimaxH_spec[OF v1, of clk d ?o NegInf PosInf st lim n] ch d1
  have k12: "keeps h1 h2"
    and cv: "minimax clk (makeMoveOnBoard (deref h b) mv) d ?o NegInf PosInf st lim n = (sc, n1)"
    by simp_all
  have "keeps h h1" unfolding h1 by (rule keeps_append)
  then have k02: "keeps h h2" using k12 by (rule keeps_trans)
  from validRef_keeps[OF Cons.prems(1) k02]
  have v2: "validRef h2 b" and d2: "deref h2 b = deref h b" by simp_all
  have rest: "\<forall>mv \<in> set mvs. inRange (fst (from_sq mv)) \<and> inRange (fst (to_sq mv))"
    using Cons.prems(2) by simp
  note ih = Cons.IH[OF v2 rest, unfolded d2]
  have k: "keeps h (snd (snd (snd (rootLoopH clk st lim h2 b d side mvs bm' bs' (Suc n1)))))"
    for bm' bs'
    using keeps_trans[OF k02] ih by simp
  show ?case
  proof (cases "side = CHR ''w''")
    case True
    show ?thesis
      using k02 k ih mk ch cv unfolding True by (simp add: Let_def)
  next
    case False
    show ?thesis
      using k02 k ih mk ch cv False by (simp add: Let_def)
  qed
qed

lemma minimaxRootH_spec:
  assumes "validRef h b"
  shows "keeps h (snd (snd (snd (minimaxRootH clk h b (Suc d) side lim n))))
   \<and> (fst (minimaxRootH clk h b (Suc d) side lim n),
       fst (snd (minimaxRootH clk h b (Suc d) side lim n)),
       fst (snd (snd (minimaxRootH clk h b (Suc d) side lim n))))
     = minimaxRootSearch clk (deref h b) (Suc d) side lim n"
  using rootLoopH_spec[OF assms rootMoves_in_range] by (simp add: Let_def)

text \<open>
  C8.  For every depth, side, window, clock and time budget, after \<open>minimaxRoot\<close> (depth
  at least one) and after \<open>minimax\<close> every row array that existed before the call holds
  the cells it held, so every cell of the board passed in has its value from before the
  call.
\<close>

theorem search_keeps_caller_board:
  assumes "validRef h b"
  shows "(0 < depth \<longrightarrow>
           (let h' = snd (snd (snd (minimaxRootH clk h b depth side timeLimitMs n)))
            in (\<forall>a < length h. h' ! a = h ! a) \<and> deref h' b = deref h b))
       \<and> (let h' = snd (snd (minimaxH clk h b depth side alpha beta startTime timeLimitMs n))
          in (\<forall>a < length h. h' ! a = h ! a) \<and> deref h' b = deref h b)"
proof (intro conjI impI)
  assume "0 < depth"
  then obtain d where d: "depth = Suc d" by (cases depth) auto
  have k1: "keeps h (snd (snd (snd (minimaxRootH clk h b depth side timeLimitMs n))))"
    unfolding d using minimaxRootH_spec[OF assms] by simp
  show "let h' = snd (snd (snd (minimaxRootH clk h b depth side timeLimitMs n)))
        in (\<forall>a < length h. h' ! a = h ! a) \<and> deref h' b = deref h b"
    using keeps_nth[OF k1] validRef_keeps[OF assms k1] by (simp add: Let_def)
next
  have k2: "keeps h (snd (snd (minimaxH clk h b depth side alpha beta startTime timeLimitMs n)))"
    using minimaxH_spec[OF assms] by simp
  show "let h' = snd (snd (minimaxH clk h b depth side alpha beta startTime timeLimitMs n))
        in (\<forall>a < length h. h' ! a = h ! a) \<and> deref h' b = deref h b"
    using keeps_nth[OF k2] validRef_keeps[OF assms k2] by (simp add: Let_def)
qed

theorem search_keeps_caller_board_witness:
  "validRef kpBoard kpRef \<and> (0 :: nat) < 3
   \<and> (let h' = snd (snd (snd (minimaxRootH (\<lambda>_. 0) kpBoard kpRef 3 (CHR ''b'') 2000 0)))
      in (\<forall>a < length kpBoard. h' ! a = kpBoard ! a) \<and> deref h' kpRef = kpBoard)
   \<and> (let h' = snd (snd (minimaxH (\<lambda>_. 0) kpBoard kpRef 3 (CHR ''b'') NegInf PosInf 0 2000 0))
      in (\<forall>a < length kpBoard. h' ! a = kpBoard ! a) \<and> deref h' kpRef = kpBoard)"
proof -
  have v: "validRef kpBoard kpRef" by code_simp
  have d: "deref kpBoard kpRef = kpBoard" by code_simp
  have p: "(0 :: nat) < 3" by simp
  note t = search_keeps_caller_board[OF v, where depth = 3 and clk = "\<lambda>_. 0" and side = "CHR ''b''"
      and timeLimitMs = 2000 and n = 0 and alpha = NegInf and beta = PosInf and startTime = 0,
      unfolded d]
  from t p v show ?thesis by blast
qed


end
